theory Spec2Isabelle
  imports Main "HOL-Library.Word"
begin

section \<open>Strings\<close>

text \<open>
  A Python \<open>str\<close> is a sequence of code points. The model reads a \<^typ>\<open>char\<close> as the
  code point with that number, so a \<^typ>\<open>string\<close> is a Python string over the code
  points U+0000 to U+00FF. On this range the three character classes the scripts use are
  finite tables: \<open>str.isspace\<close> (which decides what \<open>str.strip()\<close> removes),
  \<open>str.isdigit\<close>, and the decimal digits that \<open>int()\<close> accepts.
\<close>

definition isspace :: "char \<Rightarrow> bool" where
  "isspace c \<longleftrightarrow> c \<in> set [CHR 0x09, CHR 0x0A, CHR 0x0B, CHR 0x0C, CHR 0x0D,
      CHR 0x1C, CHR 0x1D, CHR 0x1E, CHR 0x1F, CHR 0x20, CHR 0x85, CHR 0xA0]"

definition is_decimal :: "char \<Rightarrow> bool" where
  "is_decimal c \<longleftrightarrow> c \<in> set ''0123456789''"

text \<open>\<open>str.isdigit\<close> also accepts the superscript digits U+00B2, U+00B3 and U+00B9.\<close>

definition isdigit_char :: "char \<Rightarrow> bool" where
  "isdigit_char c \<longleftrightarrow> is_decimal c \<or> c \<in> set [CHR 0xB2, CHR 0xB3, CHR 0xB9]"

definition isdigit :: "string \<Rightarrow> bool" where
  "isdigit s \<longleftrightarrow> s \<noteq> [] \<and> list_all isdigit_char s"

definition strip :: "string \<Rightarrow> string" where
  "strip s = rev (dropWhile isspace (rev (dropWhile isspace s)))"

text \<open>\<open>bool(s.strip())\<close>: the string has a character that is not white space.\<close>

definition nonblank :: "string \<Rightarrow> bool" where
  "nonblank s \<longleftrightarrow> strip s \<noteq> []"

definition digit_value :: "char \<Rightarrow> int" where
  "digit_value c = int (of_char c) - 48"

definition digits_value :: "string \<Rightarrow> int" where
  "digits_value s = foldl (\<lambda>a c. 10 * a + digit_value c) 0 s"

datatype error = ValueError | KeyError | TypeError | AssertionError | UnboundLocalError

text \<open>
  \<open>int(s)\<close> for a string \<open>s\<close> that passed \<open>s.isdigit()\<close>: the base-10 value when
  every character is a decimal digit and there are no more of them than the interpreter
  converts, and \<open>ValueError\<close> otherwise. A superscript digit is a digit for \<open>isdigit\<close>
  and an invalid literal for \<open>int\<close>. CPython, from version 3.11 on, refuses by default to
  convert a literal of more than 4300 digits, leading zeros counted
  (\<open>sys.get_int_max_str_digits()\<close>).
\<close>

definition int_max_str_digits :: nat where
  "int_max_str_digits = 4300"

definition py_int :: "string \<Rightarrow> error + int" where
  "py_int s =
     (if s \<noteq> [] \<and> list_all is_decimal s \<and> length s \<le> int_max_str_digits
      then Inr (digits_value s) else Inl ValueError)"

text \<open>The test \<open>s.startswith("+") and s[1:].isdigit()\<close> on \<open>s = v.strip()\<close>.\<close>

definition plus_number :: "string \<Rightarrow> bool" where
  "plus_number v \<longleftrightarrow> (let s = strip v in take 1 s = ''+'' \<and> isdigit (drop 1 s))"

section \<open>Documents\<close>

text \<open>
  What \<open>json.loads\<close> returns: \<open>None\<close>, \<open>bool\<close>, \<open>int\<close> (unbounded), \<open>float\<close>
  (a 64-bit pattern, never inspected by the scripts), \<open>str\<close>, \<open>list\<close> and \<open>dict\<close>. A
  \<open>dict\<close> keeps its keys in insertion order and is modelled by an association list;
  a parsed dictionary has pairwise distinct keys.
\<close>

datatype json =
    JNull
  | JBool bool
  | JInt int
  | JFloat "64 word"
  | JStr string
  | JList "json list"
  | JDict "(string \<times> json) list"

type_synonym dict = "(string \<times> json) list"

fun is_dict :: "json \<Rightarrow> bool" where
  "is_dict (JDict _) = True"
| "is_dict _ = False"

fun is_list :: "json \<Rightarrow> bool" where
  "is_list (JList _) = True"
| "is_list _ = False"

fun is_str :: "json \<Rightarrow> bool" where
  "is_str (JStr _) = True"
| "is_str _ = False"

text \<open>\<open>d.get(k)\<close>, \<open>d[k] = v\<close> (an existing key keeps its place, a new key goes last).\<close>

definition dict_get :: "dict \<Rightarrow> string \<Rightarrow> json" where
  "dict_get d k = (case map_of d k of None \<Rightarrow> JNull | Some v \<Rightarrow> v)"

fun dict_set :: "dict \<Rightarrow> string \<Rightarrow> json \<Rightarrow> dict" where
  "dict_set [] k v = [(k, v)]"
| "dict_set ((k', v') # d) k v = (if k' = k then (k, v) # d else (k', v') # dict_set d k v)"

section \<open>Change logs\<close>

text \<open>
  A line of a change log is modelled by the template that produced it together with the
  values interpolated into it.
\<close>

datatype place = AtKey string | AtIndex nat

datatype change =
    PlusNumber place string int
  | GlobalConverted
  | TraitCreated string
  | ValueNoneToList string
  | ValueStrToList string
  | ValueCleaned string
  | ValueInvalid string
  | FieldStrToList string string
  | FieldStrToListN string string nat
  | FieldCleaned string string
  | ValueSplit string nat
  | LanguagesNulls nat
  | ItemRenamed json string string string
  | ActionRenamed json string string
  | ResourceRemoved string

section \<open>The numeric-string pass\<close>

text \<open>
  \<open>convert_plus_number_strings(obj, changes)\<close> of \<open>repair_pf1_packages.py\<close>. The function
  of the same name in \<open>repair_pf1_character_resistances_packages.py\<close> is this one
  without the log, that is, called with \<open>changes = None\<close>. The dictionary loop runs over
  a snapshot of the items and assigns \<open>obj[k]\<close> for the key at hand; as keys are
  distinct this rewrites the value of that item in place, so the loop is a traversal of
  the items. A nested value is mutated in place by the recursive call; the model puts the
  returned value back where it was read.
\<close>

definition log_change :: "change list option \<Rightarrow> change \<Rightarrow> change list option" where
  "log_change changes c = (case changes of None \<Rightarrow> None | Some cs \<Rightarrow> Some (cs @ [c]))"

function convert_plus_number_strings ::
    "json \<Rightarrow> change list option \<Rightarrow> error + (json \<times> bool \<times> change list option)"
  and cpns_value ::
    "place \<Rightarrow> json \<Rightarrow> change list option \<Rightarrow> error + (json \<times> bool \<times> change list option)"
  and cpns_items ::
    "dict \<Rightarrow> change list option \<Rightarrow> error + (dict \<times> bool \<times> change list option)"
  and cpns_elems ::
    "nat \<Rightarrow> json list \<Rightarrow> change list option \<Rightarrow> error + (json list \<times> bool \<times> change list option)"
where
  "convert_plus_number_strings obj changes =
     (case obj of
        JDict kvs \<Rightarrow>
          (case cpns_items kvs changes of
             Inl e \<Rightarrow> Inl e
           | Inr (kvs', changed, changes') \<Rightarrow> Inr (JDict kvs', changed, changes'))
      | JList vs \<Rightarrow>
          (case cpns_elems 0 vs changes of
             Inl e \<Rightarrow> Inl e
           | Inr (vs', changed, changes') \<Rightarrow> Inr (JList vs', changed, changes'))
      | _ \<Rightarrow> Inr (obj, False, changes))"
| "cpns_value p v changes =
     (case v of
        JStr s \<Rightarrow>
          (if plus_number s
           then (case py_int (drop 1 (strip s)) of
                   Inl e \<Rightarrow> Inl e
                 | Inr n \<Rightarrow> Inr (JInt n, True, log_change changes (PlusNumber p s n)))
           else Inr (v, False, changes))
      | _ \<Rightarrow> convert_plus_number_strings v changes)"
| "cpns_items [] changes = Inr ([], False, changes)"
| "cpns_items ((k, v) # kvs) changes =
     (case cpns_value (AtKey k) v changes of
        Inl e \<Rightarrow> Inl e
      | Inr (v', c1, changes1) \<Rightarrow>
          (case cpns_items kvs changes1 of
             Inl e \<Rightarrow> Inl e
           | Inr (kvs', c2, changes2) \<Rightarrow> Inr ((k, v') # kvs', c1 \<or> c2, changes2)))"
| "cpns_elems i [] changes = Inr ([], False, changes)"
| "cpns_elems i (v # vs) changes =
     (case cpns_value (AtIndex i) v changes of
        Inl e \<Rightarrow> Inl e
      | Inr (v', c1, changes1) \<Rightarrow>
          (case cpns_elems (Suc i) vs changes1 of
             Inl e \<Rightarrow> Inl e
           | Inr (vs', c2, changes2) \<Rightarrow> Inr (v' # vs', c1 \<or> c2, changes2)))"
  by pat_completeness auto
termination
  by (relation "measure (\<lambda>x. case x of
        Inl (Inl (obj, _)) \<Rightarrow> 2 * size obj
      | Inl (Inr (_, v, _)) \<Rightarrow> 2 * size v + 1
      | Inr (Inl (kvs, _)) \<Rightarrow> 2 * size_list (size_prod (\<lambda>_. 0) size) kvs + 1
      | Inr (Inr (_, vs, _)) \<Rightarrow> 2 * size_list size vs + 1)") auto

declare convert_plus_number_strings.simps [simp del] cpns_value.simps [simp del]

text \<open>
  The pass as the specification words it: a string value of a mapping or an element of a
  sequence, at any depth, that after trimming is a \<open>+\<close> followed by one or more decimal
  digits and nothing else becomes that base-10 integer; nothing else changes.
\<close>

definition spec_plus_number :: "string \<Rightarrow> bool" where
  "spec_plus_number v \<longleftrightarrow>
     (let s = strip v in take 1 s = ''+'' \<and> drop 1 s \<noteq> [] \<and> list_all is_decimal (drop 1 s))"

fun spec_norm_value :: "json \<Rightarrow> json"
  and spec_norm_items :: "dict \<Rightarrow> dict"
  and spec_norm_elems :: "json list \<Rightarrow> json list"
where
  "spec_norm_value (JStr s) =
     (if spec_plus_number s then JInt (digits_value (drop 1 (strip s))) else JStr s)"
| "spec_norm_value (JDict kvs) = JDict (spec_norm_items kvs)"
| "spec_norm_value (JList vs) = JList (spec_norm_elems vs)"
| "spec_norm_value JNull = JNull"
| "spec_norm_value (JBool b) = JBool b"
| "spec_norm_value (JInt n) = JInt n"
| "spec_norm_value (JFloat x) = JFloat x"
| "spec_norm_items [] = []"
| "spec_norm_items ((k, v) # kvs) = (k, spec_norm_value v) # spec_norm_items kvs"
| "spec_norm_elems [] = []"
| "spec_norm_elems (v # vs) = spec_norm_value v # spec_norm_elems vs"

definition spec_normalize :: "json \<Rightarrow> json" where
  "spec_normalize obj = (if is_str obj then obj else spec_norm_value obj)"

text \<open>
  \<open>plus_strings_at v\<close>: the value \<open>v\<close> of a mapping or sequence is, or contains at
  some depth as such a value, a string that passes the test of the pass.
\<close>

fun plus_strings_at :: "json \<Rightarrow> bool"
  and plus_strings_items :: "dict \<Rightarrow> bool"
  and plus_strings_elems :: "json list \<Rightarrow> bool"
where
  "plus_strings_at (JStr s) = plus_number s"
| "plus_strings_at (JDict kvs) = plus_strings_items kvs"
| "plus_strings_at (JList vs) = plus_strings_elems vs"
| "plus_strings_at JNull = False"
| "plus_strings_at (JBool b) = False"
| "plus_strings_at (JInt n) = False"
| "plus_strings_at (JFloat x) = False"
| "plus_strings_items [] = False"
| "plus_strings_items ((k, v) # kvs) = (plus_strings_at v \<or> plus_strings_items kvs)"
| "plus_strings_elems [] = False"
| "plus_strings_elems (v # vs) = (plus_strings_at v \<or> plus_strings_elems vs)"

definition has_plus_strings :: "json \<Rightarrow> bool" where
  "has_plus_strings obj \<longleftrightarrow> \<not> is_str obj \<and> plus_strings_at obj"

text \<open>
  \<open>int_ok_at v\<close>: every string below \<open>v\<close> that passes the test of the pass has decimal
  digits only, and no more of them than \<open>int\<close> converts, so that \<open>int\<close> accepts it.
\<close>

fun int_ok_at :: "json \<Rightarrow> bool"
  and int_ok_items :: "dict \<Rightarrow> bool"
  and int_ok_elems :: "json list \<Rightarrow> bool"
where
  "int_ok_at (JStr s) =
     (plus_number s \<longrightarrow> spec_plus_number s \<and> length (drop 1 (strip s)) \<le> int_max_str_digits)"
| "int_ok_at (JDict kvs) = int_ok_items kvs"
| "int_ok_at (JList vs) = int_ok_elems vs"
| "int_ok_at JNull = True"
| "int_ok_at (JBool b) = True"
| "int_ok_at (JInt n) = True"
| "int_ok_at (JFloat x) = True"
| "int_ok_items [] = True"
| "int_ok_items ((k, v) # kvs) = (int_ok_at v \<and> int_ok_items kvs)"
| "int_ok_elems [] = True"
| "int_ok_elems (v # vs) = (int_ok_at v \<and> int_ok_elems vs)"

definition int_ok :: "json \<Rightarrow> bool" where
  "int_ok obj \<longleftrightarrow> is_str obj \<or> int_ok_at obj"

text \<open>The log lines the pass writes, in the order of the traversal.\<close>

fun plus_log_at :: "place \<Rightarrow> json \<Rightarrow> change list"
  and plus_log_items :: "dict \<Rightarrow> change list"
  and plus_log_elems :: "nat \<Rightarrow> json list \<Rightarrow> change list"
where
  "plus_log_at p (JStr s) =
     (if plus_number s then [PlusNumber p s (digits_value (drop 1 (strip s)))] else [])"
| "plus_log_at p (JDict kvs) = plus_log_items kvs"
| "plus_log_at p (JList vs) = plus_log_elems 0 vs"
| "plus_log_at p JNull = []"
| "plus_log_at p (JBool b) = []"
| "plus_log_at p (JInt n) = []"
| "plus_log_at p (JFloat x) = []"
| "plus_log_items [] = []"
| "plus_log_items ((k, v) # kvs) = plus_log_at (AtKey k) v @ plus_log_items kvs"
| "plus_log_elems i [] = []"
| "plus_log_elems i (v # vs) = plus_log_at (AtIndex i) v @ plus_log_elems (Suc i) vs"

definition add_log :: "change list option \<Rightarrow> change list \<Rightarrow> change list option" where
  "add_log changes cs = (case changes of None \<Rightarrow> None | Some cs0 \<Rightarrow> Some (cs0 @ cs))"

definition plus_log :: "json \<Rightarrow> change list" where
  "plus_log obj = (if is_str obj then [] else plus_log_at (AtIndex 0) obj)"

section \<open>Shared helpers of the two shape normalizers\<close>

text \<open>
  \<open>get(d, path)\<close> with the default \<open>None\<close>; the path is given as the list of its parts,
  \<open>path.split(".")\<close>.
\<close>

fun get :: "json \<Rightarrow> string list \<Rightarrow> json" where
  "get cur [] = cur"
| "get cur (part # parts) =
     (case cur of
        JDict d \<Rightarrow> (case map_of d part of None \<Rightarrow> JNull | Some v \<Rightarrow> get v parts)
      | _ \<Rightarrow> JNull)"

text \<open>
  An object reached by \<open>get\<close> is mutated in place; the model writes the new object back
  at the path it was read from.
\<close>

fun write_back :: "json \<Rightarrow> string list \<Rightarrow> json \<Rightarrow> json" where
  "write_back cur [] new = new"
| "write_back cur (part # parts) new =
     (case cur of
        JDict d \<Rightarrow> JDict (dict_set d part (write_back (dict_get d part) parts new))
      | _ \<Rightarrow> cur)"

text \<open>
  \<open>ensure_dict_path(d, path)\<close>. The callers ignore the returned innermost mapping, so
  the model returns the mutated \<open>d\<close>. On a value that is not a mapping the membership
  test or the item assignment raises \<open>TypeError\<close>.
\<close>

fun ensure_dict_path :: "json \<Rightarrow> string list \<Rightarrow> error + json" where
  "ensure_dict_path cur [] = Inr cur"
| "ensure_dict_path cur (part # parts) =
     (case cur of
        JDict d \<Rightarrow>
          (let sub = (if map_of d part = None \<or> \<not> is_dict (dict_get d part)
                      then JDict [] else dict_get d part)
           in case ensure_dict_path sub parts of
                Inl e \<Rightarrow> Inl e
              | Inr sub' \<Rightarrow> Inr (JDict (dict_set d part sub')))
      | _ \<Rightarrow> Inl TypeError)"

text \<open>
  \<open>cur[k1][k2]...[kn][key] = new\<close>: subscription raises \<open>KeyError\<close> on a missing key and
  \<open>TypeError\<close> on a value that is not a mapping.
\<close>

fun set_item_at :: "json \<Rightarrow> string list \<Rightarrow> string \<Rightarrow> json \<Rightarrow> error + json" where
  "set_item_at cur [] key new =
     (case cur of JDict d \<Rightarrow> Inr (JDict (dict_set d key new)) | _ \<Rightarrow> Inl TypeError)"
| "set_item_at cur (part # parts) key new =
     (case cur of
        JDict d \<Rightarrow>
          (case map_of d part of
             None \<Rightarrow> Inl KeyError
           | Some sub \<Rightarrow>
               (case set_item_at sub parts key new of
                  Inl e \<Rightarrow> Inl e
                | Inr sub' \<Rightarrow> Inr (JDict (dict_set d part sub'))))
      | _ \<Rightarrow> Inl TypeError)"

text \<open>\<open>SPLIT_RE.split(s)\<close> for \<open>SPLIT_RE = re.compile(r"[;,]+")\<close>.\<close>

definition is_sep :: "char \<Rightarrow> bool" where
  "is_sep c \<longleftrightarrow> c = CHR '';'' \<or> c = CHR '',''"

function re_split :: "string \<Rightarrow> string list" where
  "re_split [] = [[]]"
| "re_split (c # cs) =
     (if is_sep c then [] # re_split (dropWhile is_sep cs)
      else (case re_split cs of [] \<Rightarrow> [[c]] | p # ps \<Rightarrow> (c # p) # ps))"
  by pat_completeness auto
termination
  by (relation "measure length") (auto simp: length_dropWhile_le less_Suc_eq_le)

definition str_to_list :: "string \<Rightarrow> string list" where
  "str_to_list s = filter (\<lambda>t. t \<noteq> []) (map strip (re_split s))"

text \<open>\<open>[x for x in v if isinstance(x, str) and x.strip()]\<close>\<close>

fun keep_trait :: "json \<Rightarrow> bool" where
  "keep_trait (JStr s) = nonblank s"
| "keep_trait _ = False"

definition clean_list :: "json list \<Rightarrow> json list" where
  "clean_list v = filter keep_trait v"

text \<open>
  The purge of nulls in \<open>system.traits.languages.value\<close>, the same lines in
  \<open>repair_actor_doc\<close> and in \<open>repair_doc\<close>.
\<close>

definition languages_path :: "string list" where
  "languages_path = [''system'', ''traits'', ''languages'']"

definition purge_language_nulls ::
    "json \<Rightarrow> bool \<Rightarrow> change list \<Rightarrow> error + (json \<times> bool \<times> change list)" where
  "purge_language_nulls doc changed changes =
     (case get doc (languages_path @ [''value'']) of
        JList lang_val \<Rightarrow>
          (let nulls = length (filter (\<lambda>x. x = JNull) lang_val) in
           if nulls \<noteq> 0
           then (case ensure_dict_path doc languages_path of
                   Inl e \<Rightarrow> Inl e
                 | Inr doc1 \<Rightarrow>
                     (case set_item_at doc1 languages_path ''value''
                             (JList (filter (\<lambda>x. x \<noteq> JNull) lang_val)) of
                        Inl e \<Rightarrow> Inl e
                      | Inr doc2 \<Rightarrow> Inr (doc2, True, changes @ [LanguagesNulls nulls])))
           else Inr (doc, changed, changes))
      | _ \<Rightarrow> Inr (doc, changed, changes))"

section \<open>\<open>repair_pf1_character_resistances_packages.py\<close>\<close>

text \<open>The three parts of \<open>ensure_trait_arrays\<close>: the entry, its \<open>value\<close>, its other fields.\<close>

definition ensure_value :: "string \<Rightarrow> dict \<Rightarrow> dict \<times> bool \<times> change list" where
  "ensure_value key trait =
     (case dict_get trait ''value'' of
        JNull \<Rightarrow> (dict_set trait ''value'' (JList []), True, [ValueNoneToList key])
      | JStr s \<Rightarrow>
          (dict_set trait ''value'' (JList (map JStr (str_to_list s))), True, [ValueStrToList key])
      | JList v \<Rightarrow>
          (let cleaned = clean_list v in
           if cleaned \<noteq> v then (dict_set trait ''value'' (JList cleaned), True, [ValueCleaned key])
           else (trait, False, []))
      | _ \<Rightarrow> (dict_set trait ''value'' (JList []), True, [ValueInvalid key]))"

definition ensure_field :: "string \<Rightarrow> string \<Rightarrow> dict \<Rightarrow> dict \<times> bool \<times> change list" where
  "ensure_field key field trait =
     (case dict_get trait field of
        JStr s \<Rightarrow>
          (dict_set trait field (JList (map JStr (str_to_list s))), True, [FieldStrToList key field])
      | JList val \<Rightarrow>
          (let cleaned = clean_list val in
           if cleaned \<noteq> val then (dict_set trait field (JList cleaned), True, [FieldCleaned key field])
           else (trait, False, []))
      | _ \<Rightarrow> (trait, False, []))"

text \<open>
  \<open>ensure_trait_arrays(traits, key, changes)\<close> returns the mutated \<open>traits\<close>, the flag and
  the extended log.
\<close>

definition ensure_trait_arrays ::
    "dict \<Rightarrow> string \<Rightarrow> change list \<Rightarrow> error + (dict \<times> bool \<times> change list)" where
  "ensure_trait_arrays traits key changes =
     (let (traits1, changed1, changes1) =
            (if map_of traits key = None \<or> \<not> is_dict (dict_get traits key)
             then (dict_set traits key (JDict []), True, changes @ [TraitCreated key])
             else (traits, False, changes))
      in case dict_get traits1 key of
           JDict trait \<Rightarrow>
             (let (trait2, changed2, log2) = ensure_value key trait;
                  (trait3, changed3, log3) = ensure_field key ''custom'' trait2;
                  (trait4, changed4, log4) = ensure_field key ''customTotal'' trait3
              in Inr (dict_set traits1 key (JDict trait4),
                      changed1 \<or> changed2 \<or> changed3 \<or> changed4,
                      changes1 @ log2 @ log3 @ log4))
         | _ \<Rightarrow> Inl AssertionError)"

fun ensure_traits_loop ::
    "string list \<Rightarrow> dict \<Rightarrow> bool \<Rightarrow> change list \<Rightarrow> error + (dict \<times> bool \<times> change list)" where
  "ensure_traits_loop [] traits changed changes = Inr (traits, changed, changes)"
| "ensure_traits_loop (key # keys) traits changed changes =
     (case ensure_trait_arrays traits key changes of
        Inl e \<Rightarrow> Inl e
      | Inr (traits', c, changes') \<Rightarrow> ensure_traits_loop keys traits' (changed \<or> c) changes')"

text \<open>The last step of \<open>repair_actor_doc\<close>, also its only step when there are no traits.\<close>

definition convert_globally ::
    "json \<Rightarrow> bool \<Rightarrow> change list \<Rightarrow> error + (json \<times> bool \<times> change list)" where
  "convert_globally doc changed changes =
     (case convert_plus_number_strings doc None of
        Inl e \<Rightarrow> Inl e
      | Inr (doc', c, _) \<Rightarrow>
          if c then Inr (doc', True, changes @ [GlobalConverted]) else Inr (doc', changed, changes))"

definition traits_path :: "string list" where
  "traits_path = [''system'', ''traits'']"

definition repair_actor_doc :: "json \<Rightarrow> error + (json \<times> bool \<times> change list)" where
  "repair_actor_doc doc =
     (case get doc traits_path of
        JDict traits \<Rightarrow>
          (case ensure_traits_loop [''eres'', ''dr'', ''dv''] traits False [] of
             Inl e \<Rightarrow> Inl e
           | Inr (traits', changed1, changes1) \<Rightarrow>
               (case purge_language_nulls (write_back doc traits_path (JDict traits'))
                       changed1 changes1 of
                  Inl e \<Rightarrow> Inl e
                | Inr (doc2, changed2, changes2) \<Rightarrow> convert_globally doc2 changed2 changes2))
      | _ \<Rightarrow> convert_globally doc False [])"

definition should_patch_doc :: "dict \<Rightarrow> bool" where
  "should_patch_doc doc \<longleftrightarrow> dict_get doc ''type'' \<in> set [JStr ''character'', JStr ''npc'']"

section \<open>\<open>repair_pf1_packages.py\<close>\<close>

definition TRAIT_KEYS :: "string list" where
  "TRAIT_KEYS = [''di'', ''dv'', ''ci'', ''languages'', ''armorProf'', ''weaponProf'']"

text \<open>Step 2 of \<open>repair_doc\<close> for one key and one field of a trait that is a mapping.\<close>

definition fix_field :: "string \<Rightarrow> string \<Rightarrow> dict \<Rightarrow> dict \<times> bool \<times> change list" where
  "fix_field k field trait =
     (case dict_get trait field of
        JStr s \<Rightarrow>
          (let new_list = str_to_list s in
           (dict_set trait field (JList (map JStr new_list)), True,
            [FieldStrToListN k field (length new_list)]))
      | JNull \<Rightarrow> (trait, False, [])
      | JList val \<Rightarrow>
          (let cleaned = clean_list val in
           if cleaned \<noteq> val then (dict_set trait field (JList cleaned), True, [FieldCleaned k field])
           else (trait, False, []))
      | _ \<Rightarrow> (trait, False, []))"

definition fix_fields :: "string \<Rightarrow> dict \<Rightarrow> dict \<times> bool \<times> change list" where
  "fix_fields k traits =
     (case dict_get traits k of
        JDict trait \<Rightarrow>
          (let (trait1, changed1, log1) = fix_field k ''custom'' trait;
               (trait2, changed2, log2) = fix_field k ''customTotal'' trait1
           in (dict_set traits k (JDict trait2), changed1 \<or> changed2, log1 @ log2))
      | _ \<Rightarrow> (traits, False, []))"

text \<open>Step 3 of \<open>repair_doc\<close> for one key.\<close>

definition split_value :: "string \<Rightarrow> dict \<Rightarrow> dict \<times> bool \<times> change list" where
  "split_value k traits =
     (case dict_get traits k of
        JDict trait \<Rightarrow>
          (case dict_get trait ''value'' of
             JStr v \<Rightarrow>
               if CHR '';'' \<in> set v \<or> CHR '','' \<in> set v
               then (let new_v = str_to_list v in
                     (dict_set traits k (JDict (dict_set trait ''value'' (JList (map JStr new_v)))),
                      True, [ValueSplit k (length new_v)]))
               else (traits, False, [])
           | _ \<Rightarrow> (traits, False, []))
      | _ \<Rightarrow> (traits, False, []))"

text \<open>A \<open>for\<close> loop over keys that threads the mapping, the flag and the log.\<close>

fun for_keys ::
    "(string \<Rightarrow> dict \<Rightarrow> dict \<times> bool \<times> change list) \<Rightarrow> string list \<Rightarrow>
     dict \<times> bool \<times> change list \<Rightarrow> dict \<times> bool \<times> change list" where
  "for_keys body [] st = st"
| "for_keys body (k # ks) (traits, changed, changes) =
     (let (traits', c, log) = body k traits
      in for_keys body ks (traits', changed \<or> c, changes @ log))"

text \<open>
  \<open>traits\<close> is read before step 1 and stays an alias of the mapping in the document (step 1
  replaces no mapping on its path), so steps 2 and 3 see what step 1 wrote: the model reads
  it again after step 1.
\<close>

definition repair_doc :: "json \<Rightarrow> error + (json \<times> bool \<times> change list)" where
  "repair_doc doc =
     (case get doc traits_path of
        JDict _ \<Rightarrow>
          (case purge_language_nulls doc False [] of
             Inl e \<Rightarrow> Inl e
           | Inr (doc1, changed1, changes1) \<Rightarrow>
               (let traits = (case get doc1 traits_path of JDict t \<Rightarrow> t | _ \<Rightarrow> []);
                    (traits', changed3, changes3) =
                      for_keys split_value [''di'', ''dv'', ''ci'']
                        (for_keys fix_fields TRAIT_KEYS (traits, changed1, changes1))
                in case convert_plus_number_strings
                          (write_back doc1 traits_path (JDict traits')) (Some changes3) of
                     Inl e \<Rightarrow> Inl e
                   | Inr (doc4, c, changes4) \<Rightarrow>
                       Inr (doc4, changed3 \<or> c,
                            (case changes4 of None \<Rightarrow> changes3 | Some cs \<Rightarrow> cs))))
      | _ \<Rightarrow>
          (case convert_plus_number_strings doc (Some []) of
             Inl e \<Rightarrow> Inl e
           | Inr (doc', c, changes') \<Rightarrow>
               Inr (doc', c, (case changes' of None \<Rightarrow> [] | Some cs \<Rightarrow> cs))))"

section \<open>\<open>repair_pf_eidolon_forms_identifiers.py\<close>\<close>

definition is_actor_doc :: "dict \<Rightarrow> bool" where
  "is_actor_doc doc \<longleftrightarrow>
     dict_get doc ''type'' \<in> set [JStr ''character'', JStr ''npc''] \<and> is_list (dict_get doc ''items'')"

text \<open>What both tag readers return for the value \<open>t\<close> stored under \<open>''tag''\<close>.\<close>

definition tag_of :: "json \<Rightarrow> string option" where
  "tag_of t = (case t of JStr s \<Rightarrow> if nonblank s then Some (strip s) else None | _ \<Rightarrow> None)"

definition get_item_tag :: "dict \<Rightarrow> string option" where
  "get_item_tag item =
     (case dict_get item ''system'' of JDict sysd \<Rightarrow> tag_of (dict_get sysd ''tag'') | _ \<Rightarrow> None)"

definition set_item_tag :: "dict \<Rightarrow> string \<Rightarrow> dict" where
  "set_item_tag item new_tag =
     (let item1 = (if map_of item ''system'' = None then dict_set item ''system'' (JDict []) else item);
          sysd = (case dict_get item1 ''system'' of JDict d \<Rightarrow> d | _ \<Rightarrow> [])
      in dict_set item1 ''system''
           (JDict (dict_set (dict_set sysd ''tag'' (JStr new_tag)) ''useCustomTag'' (JBool True))))"

definition iter_actions :: "dict \<Rightarrow> json list" where
  "iter_actions item =
     (case dict_get item ''system'' of
        JDict sysd \<Rightarrow>
          (case dict_get sysd ''actions'' of JList acts \<Rightarrow> filter is_dict acts | _ \<Rightarrow> [])
      | _ \<Rightarrow> [])"

definition get_action_tag :: "dict \<Rightarrow> string option" where
  "get_action_tag action = tag_of (dict_get action ''tag'')"

definition set_action_tag :: "dict \<Rightarrow> string \<Rightarrow> dict" where
  "set_action_tag action new_tag = dict_set action ''tag'' (JStr new_tag)"

text \<open>\<open>str(i)\<close> for the counter of \<open>unique_tag\<close>, and \<open>f"{cand}_{i}"\<close>.\<close>

definition digit_char :: "nat \<Rightarrow> char" where
  "digit_char d = ''0123456789'' ! d"

fun str_nat :: "nat \<Rightarrow> string" where
  "str_nat n =
     (if n < 10 then [digit_char n] else str_nat (n div 10) @ [digit_char (n mod 10)])"

declare str_nat.simps [simp del]

definition numbered :: "string \<Rightarrow> nat \<Rightarrow> string" where
  "numbered cand i = cand @ ''_'' @ str_nat i"

text \<open>
  The \<open>while\<close> loop of \<open>unique_tag\<close> ends because the numbered candidates are pairwise
  different and \<open>seen\<close> is finite.
\<close>

definition nat_of_digits :: "string \<Rightarrow> nat" where
  "nat_of_digits s = foldl (\<lambda>a c. 10 * a + (of_char c - 48)) 0 s"

lemma nat_of_digits_snoc: "nat_of_digits (s @ [c]) = 10 * nat_of_digits s + (of_char c - 48)"
  by (simp add: nat_of_digits_def)

lemma of_char_digit: "d < 10 \<Longrightarrow> (of_char (digit_char d) :: nat) - 48 = d"
proof -
  assume "d < 10"
  then have "d \<in> {0, 1, 2, 3, 4, 5, 6, 7, 8, 9}" by auto
  then show ?thesis by (auto simp: digit_char_def)
qed

lemma nat_of_digits_str_nat: "nat_of_digits (str_nat n) = n"
proof (induction n rule: str_nat.induct)
  case (1 n)
  show ?case
  proof (cases "n < 10")
    case True
    then show ?thesis
      by (subst str_nat.simps) (simp add: nat_of_digits_def of_char_digit)
  next
    case False
    with 1 have "nat_of_digits (str_nat (n div 10)) = n div 10" by simp
    moreover have "(of_char (digit_char (n mod 10)) :: nat) - 48 = n mod 10"
      by (rule of_char_digit) simp
    ultimately show ?thesis using False
      by (subst str_nat.simps) (simp add: nat_of_digits_snoc)
  qed
qed

lemma inj_str_nat: "inj str_nat"
  by (rule inj_on_inverseI [where g = nat_of_digits]) (rule nat_of_digits_str_nat)

lemma inj_numbered: "inj (numbered cand)"
  using inj_str_nat by (auto simp: inj_def numbered_def)

lemma finite_numbered: "finite {j. P j \<and> numbered cand j \<in> set seen}"
proof -
  have "finite (numbered cand -` set seen)"
    by (rule finite_vimageI) (simp_all add: inj_numbered)
  then show ?thesis by (rule rev_finite_subset) auto
qed

text \<open>
  \<open>unique_tag(base, suffix, seen)\<close>. The set \<open>seen\<close> is represented by a list of its
  elements, of which only membership is observed.
\<close>

function unique_tag_loop :: "string \<Rightarrow> string list \<Rightarrow> nat \<Rightarrow> string" where
  "unique_tag_loop cand seen i =
     (if numbered cand i \<in> set seen then unique_tag_loop cand seen (i + 1) else numbered cand i)"
  by pat_completeness auto
termination
proof (relation "measure (\<lambda>(cand, seen, i). card {j. i \<le> j \<and> numbered cand j \<in> set seen})")
  show "wf (measure (\<lambda>(cand, seen, i). card {j. i \<le> j \<and> numbered cand j \<in> set seen}))"
    by simp
next
  fix cand seen i
  assume "numbered cand i \<in> set seen"
  then have "i \<in> {j. i \<le> j \<and> numbered cand j \<in> set seen}"
    and "i \<notin> {j. i + 1 \<le> j \<and> numbered cand j \<in> set seen}" by auto
  moreover have "{j. i + 1 \<le> j \<and> numbered cand j \<in> set seen}
      \<subseteq> {j. i \<le> j \<and> numbered cand j \<in> set seen}"
    by auto
  ultimately have "{j. i + 1 \<le> j \<and> numbered cand j \<in> set seen}
      \<subset> {j. i \<le> j \<and> numbered cand j \<in> set seen}"
    by blast
  then have "card {j. i + 1 \<le> j \<and> numbered cand j \<in> set seen}
      < card {j. i \<le> j \<and> numbered cand j \<in> set seen}"
    by (rule psubset_card_mono [OF finite_numbered])
  then show "((cand, seen, i + 1), (cand, seen, i))
      \<in> measure (\<lambda>(cand, seen, i). card {j. i \<le> j \<and> numbered cand j \<in> set seen})"
    by simp
qed

declare unique_tag_loop.simps [simp del]

definition unique_tag :: "string \<Rightarrow> string \<Rightarrow> string list \<Rightarrow> string" where
  "unique_tag base suffix seen =
     (let cand = base @ suffix in
      if cand \<notin> set seen then cand else unique_tag_loop cand seen 2)"

definition get_resources_dict :: "dict \<Rightarrow> dict option" where
  "get_resources_dict actor =
     (case dict_get actor ''system'' of
        JDict sysd \<Rightarrow> (case dict_get sysd ''resources'' of JDict res \<Rightarrow> Some res | _ \<Rightarrow> None)
      | _ \<Rightarrow> None)"

text \<open>
  The resource map is mutated in place; the model writes it back where
  \<open>get_resources_dict\<close> found it.
\<close>

definition put_resources :: "dict \<Rightarrow> dict \<Rightarrow> dict" where
  "put_resources actor res =
     (case dict_get actor ''system'' of
        JDict sysd \<Rightarrow> dict_set actor ''system'' (JDict (dict_set sysd ''resources'' (JDict res)))
      | _ \<Rightarrow> actor)"

text \<open>
  A \<open>for\<close> loop that mutates the elements it visits in place and threads the local
  variables of the function as a state.
\<close>

fun for_each :: "('a \<Rightarrow> 's \<Rightarrow> 'a \<times> 's) \<Rightarrow> 'a list \<Rightarrow> 's \<Rightarrow> 'a list \<times> 's" where
  "for_each body [] s = ([], s)"
| "for_each body (x # xs) s =
     (let (x', s1) = body x s; (xs', s2) = for_each body xs s1 in (x' # xs', s2))"

text \<open>\<open>x = it.get("_id")\<close> followed by the fallback for a missing or empty identifier.\<close>

definition id_or :: "string \<Rightarrow> json \<Rightarrow> string" where
  "id_or fallback x = (case x of JStr s \<Rightarrow> if s \<noteq> [] then s else fallback | _ \<Rightarrow> fallback)"

text \<open>
  The body of the loop of pass 1, on the state \<open>(seen, item_tags_in_actor, changed, changes)\<close>.
\<close>

definition fix_item_tag ::
    "json \<Rightarrow> string list \<times> string list \<times> bool \<times> change list \<Rightarrow>
     json \<times> string list \<times> string list \<times> bool \<times> change list" where
  "fix_item_tag it st =
     (case st of (seen, item_tags_in_actor, changed, changes) \<Rightarrow>
     (case it of
        JDict item \<Rightarrow>
          (case get_item_tag item of
             None \<Rightarrow> (it, st)
           | Some tag \<Rightarrow>
               if tag \<notin> set seen
               then (it, tag # seen, item_tags_in_actor @ [tag], changed, changes)
               else (let item_id = id_or ''noid'' (dict_get item ''_id'');
                         new_tag = unique_tag tag (''_'' @ item_id) seen;
                         item' = set_item_tag item new_tag
                     in (JDict item', new_tag # seen, item_tags_in_actor @ [new_tag], True,
                         changes @ [ItemRenamed (dict_get item' ''name'') item_id tag new_tag])))
      | _ \<Rightarrow> (it, st)))"

text \<open>
  The body of the inner loop of pass 2, on the state \<open>(seen, changed, changes)\<close>. The loop
  runs over \<open>iter_actions(it)\<close>, the mappings among \<open>system.actions\<close>, and mutates them in
  place; the model traverses \<open>system.actions\<close>, passes over the elements that are no
  mappings, and writes the list back.
\<close>

definition fix_action_tag ::
    "json \<Rightarrow> json \<Rightarrow> string list \<times> bool \<times> change list \<Rightarrow>
     json \<times> string list \<times> bool \<times> change list" where
  "fix_action_tag it_name act st =
     (case st of (seen, changed, changes) \<Rightarrow>
     (case act of
        JDict action \<Rightarrow>
          (case get_action_tag action of
             None \<Rightarrow> (act, st)
           | Some a_tag \<Rightarrow>
               if a_tag \<in> set seen
               then (let act_id = id_or ''noactid'' (dict_get action ''_id'');
                         new_a_tag = unique_tag a_tag (''_act_'' @ act_id) seen
                     in (JDict (set_action_tag action new_a_tag), new_a_tag # seen, True,
                         changes @ [ActionRenamed it_name a_tag new_a_tag]))
               else (act, a_tag # seen, changed, changes))
      | _ \<Rightarrow> (act, st)))"

definition fix_item_actions ::
    "json \<Rightarrow> string list \<times> bool \<times> change list \<Rightarrow> json \<times> string list \<times> bool \<times> change list" where
  "fix_item_actions it st =
     (case it of
        JDict item \<Rightarrow>
          (case dict_get item ''system'' of
             JDict sysd \<Rightarrow>
               (case dict_get sysd ''actions'' of
                  JList acts \<Rightarrow>
                    (let (acts', st') = for_each (fix_action_tag (dict_get item ''name'')) acts st
                     in (JDict (dict_set item ''system'' (JDict (dict_set sysd ''actions'' (JList acts')))),
                         st'))
                | _ \<Rightarrow> (it, st))
           | _ \<Rightarrow> (it, st))
      | _ \<Rightarrow> (it, st))"

text \<open>\<open>del res[k]\<close>, and the loop of pass 3 over \<open>to_delete\<close>.\<close>

fun dict_del :: "dict \<Rightarrow> string \<Rightarrow> error + dict" where
  "dict_del [] k = Inl KeyError"
| "dict_del ((k', v) # d) k =
     (if k' = k then Inr d
      else (case dict_del d k of Inl e \<Rightarrow> Inl e | Inr d' \<Rightarrow> Inr ((k', v) # d')))"

fun delete_keys :: "string list \<Rightarrow> dict \<Rightarrow> change list \<Rightarrow> error + (dict \<times> change list)" where
  "delete_keys [] res changes = Inr (res, changes)"
| "delete_keys (k # ks) res changes =
     (case dict_del res k of
        Inl e \<Rightarrow> Inl e
      | Inr res' \<Rightarrow> delete_keys ks res' (changes @ [ResourceRemoved k]))"

definition fix_actor_identifiers_and_resources ::
    "dict \<Rightarrow> error + (dict \<times> bool \<times> change list)" where
  "fix_actor_identifiers_and_resources actor =
     (case dict_get actor ''items'' of
        JList items \<Rightarrow>
          (let (items1, seen1, item_tags_in_actor, changed1, changes1) =
                 for_each fix_item_tag items ([], [], False, []);
               (items2, seen2, changed2, changes2) =
                 for_each fix_item_actions items1 (seen1, changed1, changes1);
               actor2 = dict_set actor ''items'' (JList items2)
           in case get_resources_dict actor2 of
                Some res \<Rightarrow>
                  (let to_delete = filter (\<lambda>k. k \<in> set item_tags_in_actor) (map fst res) in
                   if to_delete \<noteq> []
                   then (case delete_keys to_delete res changes2 of
                           Inl e \<Rightarrow> Inl e
                         | Inr (res', changes3) \<Rightarrow> Inr (put_resources actor2 res', True, changes3))
                   else Inr (actor2, changed2, changes2))
              | None \<Rightarrow> Inr (actor2, changed2, changes2))
      | _ \<Rightarrow> Inr (actor, False, []))"

text \<open>The list \<open>item_tags_in_actor\<close> that pass 1 collects from the items of an actor.\<close>

definition item_tags_in_actor :: "json list \<Rightarrow> string list" where
  "item_tags_in_actor items = fst (snd (snd (for_each fix_item_tag items ([], [], False, []))))"


section \<open>Processing a file\<close>

text \<open>
  The text reader yields the lines of the input, each with its terminator already
  translated to a single newline (the last line may have none); the writer receives one
  string per line read. \<open>json.loads\<close> and \<open>json.dumps\<close> belong to the standard library
  and are parameters: \<open>loads\<close> returns \<open>None\<close> where \<open>json.loads\<close> raises
  \<open>JSONDecodeError\<close>. A line of the report is modelled by the values interpolated into it.
\<close>

type_synonym report_line = "nat \<times> json \<times> json \<times> json \<times> change list"

definition newline :: char where
  "newline = CHR 0x0A"

definition rstrip_newline :: "string \<Rightarrow> string" where
  "rstrip_newline line = rev (dropWhile (\<lambda>c. c = newline) (rev line))"

definition report_of :: "nat \<Rightarrow> json \<Rightarrow> bool \<Rightarrow> change list \<Rightarrow> report_line option" where
  "report_of line_no doc changed changes =
     (if changed
      then Some (line_no, get doc [''type''], get doc [''name''], get doc [''_id''], changes)
      else None)"

text \<open>
  The loop body of \<open>process_db_file\<close> in \<open>repair_pf1_character_resistances_packages.py\<close>:
  what it does to a parsed mapping between the type filter and the write, and the body
  itself.
\<close>

definition patch_document :: "dict \<Rightarrow> error + (json \<times> bool \<times> change list)" where
  "patch_document doc =
     (if should_patch_doc doc then repair_actor_doc (JDict doc) else Inr (JDict doc, False, []))"

definition process_line ::
    "(string \<Rightarrow> json option) \<Rightarrow> (json \<Rightarrow> string) \<Rightarrow> nat \<Rightarrow> string \<Rightarrow>
     error + (string \<times> report_line option)" where
  "process_line loads dumps line_no line =
     (let raw = rstrip_newline line in
      if strip raw = [] then Inr (line, None)
      else (case loads raw of
              None \<Rightarrow> Inr (line, None)
            | Some (JDict doc) \<Rightarrow>
                (case patch_document doc of
                   Inl e \<Rightarrow> Inl e
                 | Inr (doc', changed, changes) \<Rightarrow>
                     Inr (dumps doc' @ [newline], report_of line_no doc' changed changes))
            | Some _ \<Rightarrow> Inr (line, None)))"

text \<open>The same for \<open>process_db_file\<close> in \<open>repair_pf1_packages.py\<close>.\<close>

definition patch_document_npc :: "bool \<Rightarrow> dict \<Rightarrow> error + (json \<times> bool \<times> change list)" where
  "patch_document_npc only_npc doc =
     (if only_npc \<and> dict_get doc ''type'' \<noteq> JStr ''npc'' then Inr (JDict doc, False, [])
      else repair_doc (JDict doc))"

definition process_line_npc ::
    "(string \<Rightarrow> json option) \<Rightarrow> (json \<Rightarrow> string) \<Rightarrow> bool \<Rightarrow> nat \<Rightarrow> string \<Rightarrow>
     error + (string \<times> report_line option)" where
  "process_line_npc loads dumps only_npc line_no line =
     (let raw = rstrip_newline line in
      if strip raw = [] then Inr (line, None)
      else (case loads raw of
              None \<Rightarrow> Inr (line, None)
            | Some (JDict doc) \<Rightarrow>
                (case patch_document_npc only_npc doc of
                   Inl e \<Rightarrow> Inl e
                 | Inr (doc', changed, changes) \<Rightarrow>
                     Inr (dumps doc' @ [newline], report_of line_no doc' changed changes))
            | Some _ \<Rightarrow> Inr (line, None)))"

text \<open>
  The loop over the enumerated lines: what was written, the number of patched documents
  and the report. An exception of the body ends it.
\<close>

fun process_lines ::
    "(nat \<Rightarrow> string \<Rightarrow> error + (string \<times> report_line option)) \<Rightarrow> nat \<Rightarrow> string list \<Rightarrow>
     error + (string list \<times> nat \<times> report_line list)" where
  "process_lines body line_no [] = Inr ([], 0, [])"
| "process_lines body line_no (line # lines) =
     (case body line_no line of
        Inl e \<Rightarrow> Inl e
      | Inr (out, r) \<Rightarrow>
          (case process_lines body (line_no + 1) lines of
             Inl e \<Rightarrow> Inl e
           | Inr (outs, patched, report_lines) \<Rightarrow>
               Inr (out # outs,
                    (case r of None \<Rightarrow> patched | Some _ \<Rightarrow> patched + 1),
                    (case r of None \<Rightarrow> report_lines | Some l \<Rightarrow> l # report_lines))))"

definition process_db_file ::
    "(string \<Rightarrow> json option) \<Rightarrow> (json \<Rightarrow> string) \<Rightarrow> string list \<Rightarrow>
     error + (string list \<times> nat \<times> report_line list)" where
  "process_db_file loads dumps lines = process_lines (process_line loads dumps) 1 lines"

text \<open>
  \<open>process_db_file\<close> of \<open>repair_pf1_packages.py\<close> returns \<open>(patched, line_no)\<close>; on an
  input without lines \<open>line_no\<close> was never bound.
\<close>

definition process_db_file_npc ::
    "(string \<Rightarrow> json option) \<Rightarrow> (json \<Rightarrow> string) \<Rightarrow> bool \<Rightarrow> string list \<Rightarrow>
     error + (string list \<times> (nat \<times> nat) \<times> report_line list)" where
  "process_db_file_npc loads dumps only_npc lines =
     (case process_lines (process_line_npc loads dumps only_npc) 1 lines of
        Inl e \<Rightarrow> Inl e
      | Inr (outs, patched, report_lines) \<Rightarrow>
          if lines = [] then Inl UnboundLocalError
          else Inr (outs, (patched, length lines), report_lines))"

text \<open>
  The lines the loop writes back as it read them: a blank line, a line that does not parse,
  a line that parses to something other than a mapping.
\<close>

definition written_as_read :: "(string \<Rightarrow> json option) \<Rightarrow> string \<Rightarrow> bool" where
  "written_as_read loads line \<longleftrightarrow>
     strip (rstrip_newline line) = [] \<or>
     (case loads (rstrip_newline line) of None \<Rightarrow> True | Some v \<Rightarrow> \<not> is_dict v)"

section \<open>Shapes and frames\<close>

text \<open>
  Devices of the proofs. The shape of a value forgets what its strings and integers are,
  which is all the numeric-string pass changes. Two paths are independent when they part
  at some key, so that writing at one cannot be seen at the other. A step from \<open>d\<close> to
  \<open>d'\<close> with flag \<open>c\<close> is framed by the paths \<open>ps\<close> when it is invisible at every path
  independent of \<open>ps\<close>, changes the shape at one of \<open>ps\<close> if the flag is set, and changes
  nothing if it is not.
\<close>

fun shape :: "json \<Rightarrow> json"
  and shape_items :: "dict \<Rightarrow> dict"
  and shape_elems :: "json list \<Rightarrow> json list"
where
  "shape (JStr s) = JNull"
| "shape (JInt n) = JNull"
| "shape (JDict kvs) = JDict (shape_items kvs)"
| "shape (JList vs) = JList (shape_elems vs)"
| "shape JNull = JNull"
| "shape (JBool b) = JBool b"
| "shape (JFloat x) = JFloat x"
| "shape_items [] = []"
| "shape_items ((k, v) # kvs) = (k, shape v) # shape_items kvs"
| "shape_elems [] = []"
| "shape_elems (v # vs) = shape v # shape_elems vs"

fun independent :: "string list \<Rightarrow> string list \<Rightarrow> bool" where
  "independent (a # p) (b # q) = (a \<noteq> b \<or> independent p q)"
| "independent _ _ = False"

definition framed :: "string list set \<Rightarrow> json \<Rightarrow> json \<Rightarrow> bool \<Rightarrow> bool" where
  "framed ps d d' c \<longleftrightarrow>
     (\<forall>q. (\<forall>p\<in>ps. independent p q) \<longrightarrow> get d' q = get d q) \<and>
     (c \<longrightarrow> (\<exists>p\<in>ps. shape (get d' p) \<noteq> shape (get d p))) \<and>
     (\<not> c \<longrightarrow> d' = d)"

text \<open>The paths that steps 2 and 3 of \<open>repair_doc\<close> write for a key, below \<open>system.traits\<close>.\<close>

definition field_paths :: "string \<Rightarrow> string list set" where
  "field_paths k = {[k, ''custom''], [k, ''customTotal'']}"

definition value_paths :: "string \<Rightarrow> string list set" where
  "value_paths k = {[k, ''value'']}"

section \<open>Trait entries after repair\<close>

text \<open>
  What the claims about repaired trait entries speak of. An element of a trait sequence
  is acceptable when it is a string that is not blank, or an integer (which the
  numeric-string pass makes of a numeric token). A \<open>value\<close> is settled when it is a
  sequence of acceptable elements; a \<open>custom\<close> or \<open>customTotal\<close> is settled when it is not a
  string and, if it is a sequence, has acceptable elements only.
\<close>

fun trait_element :: "json \<Rightarrow> bool" where
  "trait_element (JStr s) = nonblank s"
| "trait_element (JInt n) = True"
| "trait_element _ = False"

fun value_ok :: "json \<Rightarrow> bool" where
  "value_ok (JList vs) = list_all trait_element vs"
| "value_ok _ = False"

fun field_ok :: "json \<Rightarrow> bool" where
  "field_ok (JStr s) = False"
| "field_ok (JList vs) = list_all trait_element vs"
| "field_ok _ = True"

text \<open>
  The same before the numeric-string pass has run, when the elements that the trait
  rules keep are the strings that are not blank.
\<close>

fun clean_value :: "json \<Rightarrow> bool" where
  "clean_value (JList vs) = list_all keep_trait vs"
| "clean_value _ = False"

fun clean_field :: "json \<Rightarrow> bool" where
  "clean_field (JStr s) = False"
| "clean_field (JList vs) = list_all keep_trait vs"
| "clean_field _ = True"

definition clean_entry :: "json \<Rightarrow> bool" where
  "clean_entry e \<longleftrightarrow>
     (case e of
        JDict t \<Rightarrow>
          clean_value (dict_get t ''value'') \<and> clean_field (dict_get t ''custom'') \<and>
          clean_field (dict_get t ''customTotal'')
      | _ \<Rightarrow> False)"

text \<open>A \<open>value\<close> that step 3 of \<open>repair_doc\<close> leaves alone.\<close>

fun unsplit :: "json \<Rightarrow> bool" where
  "unsplit (JStr v) = (CHR '';'' \<notin> set v \<and> CHR '','' \<notin> set v)"
| "unsplit _ = True"

text \<open>A sequence at \<open>system.traits.languages.value\<close> has no null.\<close>

definition no_language_nulls :: "json \<Rightarrow> bool" where
  "no_language_nulls doc \<longleftrightarrow>
     (case get doc (languages_path @ [''value'']) of JList vs \<Rightarrow> JNull \<notin> set vs | _ \<Rightarrow> True)"

text \<open>
  The sequences at the given fields of the given keys of \<open>system.traits\<close> hold strings
  only.
\<close>

fun strings_only :: "json \<Rightarrow> bool" where
  "strings_only (JList vs) = list_all is_str vs"
| "strings_only _ = True"

definition only_strings :: "string list \<Rightarrow> string list \<Rightarrow> json \<Rightarrow> bool" where
  "only_strings keys fields doc \<longleftrightarrow>
     list_all (\<lambda>k. list_all (\<lambda>f. strings_only (get doc (traits_path @ [k, f]))) fields) keys"

section \<open>The numeric-string pass in closed form\<close>

lemmas string_defs = strip_def isspace_def isdigit_def isdigit_char_def is_decimal_def
  plus_number_def spec_plus_number_def nonblank_def digits_value_def digit_value_def py_int_def
  int_max_str_digits_def

lemma spec_plus_imp: "spec_plus_number s \<Longrightarrow> plus_number s"
  by (auto simp: spec_plus_number_def plus_number_def isdigit_def isdigit_char_def Let_def list_all_iff)

lemma py_int_eq:
  "plus_number s \<Longrightarrow>
   py_int (drop (Suc 0) (strip s)) =
     (if spec_plus_number s \<and> length (drop (Suc 0) (strip s)) \<le> int_max_str_digits
      then Inr (digits_value (drop (Suc 0) (strip s))) else Inl ValueError)"
  by (auto simp: spec_plus_number_def plus_number_def py_int_def Let_def)

lemma py_int_limit: "int_max_str_digits < length s \<Longrightarrow> py_int s = Inl ValueError"
  by (simp add: py_int_def)

lemma add_log_simps [simp]:
  "add_log ch [] = ch"
  "add_log (add_log ch xs) ys = add_log ch (xs @ ys)"
  "add_log (log_change ch c) ys = add_log ch (c # ys)"
  "log_change ch c = add_log ch [c]"
  "add_log None xs = None"
  "add_log (Some cs) xs = Some (cs @ xs)"
  by (auto simp: add_log_def log_change_def split: option.splits)

lemma cpns_char:
  "convert_plus_number_strings obj changes =
     (if int_ok obj
      then Inr (spec_normalize obj, spec_normalize obj \<noteq> obj, add_log changes (plus_log obj))
      else Inl ValueError)"
  "cpns_value p v changes =
     (if int_ok_at v
      then Inr (spec_norm_value v, spec_norm_value v \<noteq> v, add_log changes (plus_log_at p v))
      else Inl ValueError)"
  "cpns_items kvs changes =
     (if int_ok_items kvs
      then Inr (spec_norm_items kvs, spec_norm_items kvs \<noteq> kvs, add_log changes (plus_log_items kvs))
      else Inl ValueError)"
  "cpns_elems i vs changes =
     (if int_ok_elems vs
      then Inr (spec_norm_elems vs, spec_norm_elems vs \<noteq> vs, add_log changes (plus_log_elems i vs))
      else Inl ValueError)"
proof (induction obj changes and p v changes and kvs changes and i vs changes
    rule: convert_plus_number_strings_cpns_value_cpns_items_cpns_elems.induct)
  case (1 obj changes)
  then show ?case
    by (cases obj)
      (simp_all add: convert_plus_number_strings.simps int_ok_def spec_normalize_def plus_log_def)
next
  case (2 p v changes)
  then show ?case
    by (cases v)
      (auto simp: cpns_value.simps convert_plus_number_strings.simps int_ok_def
         spec_normalize_def plus_log_def py_int_eq dest: spec_plus_imp)
next
  case (3 changes)
  then show ?case by simp
next
  case (4 k v kvs changes)
  then show ?case by (auto split: sum.splits)
next
  case (5 i changes)
  then show ?case by simp
next
  case (6 i v vs changes)
  then show ?case by (auto split: sum.splits)
qed

lemma spec_norm_no_plus:
  "int_ok_at v \<Longrightarrow> \<not> plus_strings_at (spec_norm_value v)"
  "int_ok_items kvs \<Longrightarrow> \<not> plus_strings_items (spec_norm_items kvs)"
  "int_ok_elems vs \<Longrightarrow> \<not> plus_strings_elems (spec_norm_elems vs)"
  by (induction v and kvs and vs rule: spec_norm_value_spec_norm_items_spec_norm_elems.induct)
    (auto dest: spec_plus_imp)

lemma spec_normalize_no_plus: "int_ok obj \<Longrightarrow> \<not> has_plus_strings (spec_normalize obj)"
  by (cases obj) (auto simp: int_ok_def has_plus_strings_def spec_normalize_def spec_norm_no_plus)

lemma spec_norm_is_dict [simp]: "is_dict (spec_norm_value v) = is_dict v"
  by (cases v) auto

lemma spec_normalize_is_dict [simp]: "is_dict (spec_normalize v) = is_dict v"
  by (cases v) (auto simp: spec_normalize_def)

lemma cpns_Inr:
  "convert_plus_number_strings doc ch = Inr (doc', c, l) \<Longrightarrow> int_ok doc \<and> doc' = spec_normalize doc"
  by (auto simp: cpns_char split: if_splits)

lemma convert_globally_Inr:
  "convert_globally doc changed changes = Inr (doc', c, l) \<Longrightarrow>
   int_ok doc \<and> doc' = spec_normalize doc"
  by (auto simp: convert_globally_def split: sum.splits if_splits dest!: cpns_Inr)

lemma repair_actor_doc_result:
  "repair_actor_doc doc = Inr (doc', c, l) \<Longrightarrow> \<exists>x. int_ok x \<and> doc' = spec_normalize x"
  by (auto simp: repair_actor_doc_def split: json.splits sum.splits dest!: convert_globally_Inr)

lemma repair_doc_result:
  "repair_doc doc = Inr (doc', c, l) \<Longrightarrow> \<exists>x. int_ok x \<and> doc' = spec_normalize x"
  by (auto simp: repair_doc_def Let_def split: json.splits sum.splits prod.splits dest!: cpns_Inr)

section \<open>Evaluating the model on a concrete document\<close>

lemmas json_evals = dict_get_def Let_def string_defs convert_plus_number_strings.simps
  cpns_value.simps repair_actor_doc_def repair_doc_def convert_globally_def traits_path_def
  languages_path_def purge_language_nulls_def ensure_trait_arrays_def ensure_value_def
  ensure_field_def str_to_list_def clean_list_def is_sep_def log_change_def fix_field_def
  fix_fields_def split_value_def TRAIT_KEYS_def

lemmas actor_evals = dict_get_def Let_def string_defs fix_actor_identifiers_and_resources_def
  fix_item_tag_def fix_item_actions_def fix_action_tag_def get_item_tag_def set_item_tag_def
  get_action_tag_def set_action_tag_def tag_of_def id_or_def unique_tag_def
  unique_tag_loop.simps numbered_def str_nat.simps digit_char_def get_resources_dict_def
  put_resources_def

section \<open>Mappings and paths\<close>

lemma map_of_dict_set [simp]:
  "map_of (dict_set d k v) k' = (if k' = k then Some v else map_of d k')"
  by (induction d) auto

lemma dict_get_dict_set [simp]:
  "dict_get (dict_set d k v) k' = (if k' = k then v else dict_get d k')"
  by (simp add: dict_get_def)

lemma dict_set_same: "map_of d k = Some v \<Longrightarrow> dict_set d k v = d"
  by (induction d) (auto split: if_splits)


lemma dict_set_twice [simp]: "dict_set (dict_set d k v) k w = dict_set d k w"
  by (induction d) auto

lemma dict_get_Some: "dict_get d k = v \<Longrightarrow> v \<noteq> JNull \<Longrightarrow> map_of d k = Some v"
  by (auto simp: dict_get_def split: option.splits)

lemma dict_set_get: "dict_get d k = v \<Longrightarrow> v \<noteq> JNull \<Longrightarrow> dict_set d k v = d"
  by (simp add: dict_set_same dict_get_Some)

lemma get_JNull [simp]: "get JNull p = JNull"
  by (cases p) auto

lemma get_append: "get d (p @ q) = get (get d p) q"
  by (induction d p rule: get.induct) (auto split: json.splits option.splits)

lemma write_back_get: "get d p = v \<Longrightarrow> v \<noteq> JNull \<Longrightarrow> write_back d p v = d"
proof (induction d p arbitrary: v rule: get.induct)
  case (1 cur)
  then show ?case by simp
next
  case (2 cur part parts)
  then show ?case
    by (auto split: json.splits option.splits simp: dict_get_def dict_set_same)
qed

lemma get_write_back: "get d p \<noteq> JNull \<Longrightarrow> get (write_back d p v) p = v"
  by (induction d p rule: get.induct) (auto split: json.splits option.splits simp: dict_get_def)

lemma write_back_twice: "get d p \<noteq> JNull \<Longrightarrow> write_back (write_back d p v) p w = write_back d p w"
  by (induction d p rule: get.induct) (auto split: json.splits option.splits simp: dict_get_def)

lemma get_nonnull_is_dict: "get d (p @ q) \<noteq> JNull \<Longrightarrow> q \<noteq> [] \<Longrightarrow> is_dict (get d p)"
  by (cases "get d p"; cases q) (auto simp: get_append)

lemma ensure_dict_path_id: "get d (p @ q) \<noteq> JNull \<Longrightarrow> q \<noteq> [] \<Longrightarrow> ensure_dict_path d p = Inr d"
proof (induction p arbitrary: d)
  case Nil
  then show ?case by simp
next
  case (Cons part parts)
  then obtain dd where c: "d = JDict dd" by (cases d) auto
  with Cons obtain sub where s: "map_of dd part = Some sub" by (auto split: option.splits)
  with Cons c have g: "get sub (parts @ q) \<noteq> JNull" by simp
  then have "is_dict sub" using \<open>q \<noteq> []\<close> get_nonnull_is_dict [of sub "[]" "parts @ q"] by simp
  moreover have "ensure_dict_path sub parts = Inr sub" using Cons.IH g Cons.prems(2) by simp
  ultimately show ?case using c s by (simp add: dict_get_def Let_def dict_set_same)
qed

lemma set_item_at_write_back:
  "get d p \<noteq> JNull \<Longrightarrow> is_dict (get d p) \<Longrightarrow> set_item_at d p k v = Inr (write_back d (p @ [k]) v)"
  by (induction d p rule: get.induct)
     (auto split: json.splits option.splits simp: dict_get_def)

section \<open>The three passes of the Identifier Deduplicator\<close>

lemma delete_keys_skip:
  "k \<notin> set ks \<Longrightarrow>
   delete_keys ks ((k, v) # r) ch =
     (case delete_keys ks r ch of Inl e \<Rightarrow> Inl e | Inr (r', ch') \<Rightarrow> Inr ((k, v) # r', ch'))"
  by (induction ks arbitrary: r ch) (auto split: sum.splits)

lemma delete_keys_filter:
  "delete_keys (filter (\<lambda>k. k \<in> T) (map fst res)) res ch =
     Inr (filter (\<lambda>(k, v). k \<notin> T) res,
          ch @ map ResourceRemoved (filter (\<lambda>k. k \<in> T) (map fst res)))"
proof (induction res arbitrary: ch)
  case Nil
  then show ?case by simp
next
  case (Cons kv res)
  obtain k v where kv: "kv = (k, v)" by (cases kv)
  show ?case
  proof (cases "k \<in> T")
    case True
    then show ?thesis using Cons [of "ch @ [ResourceRemoved k]"] kv by simp
  next
    case False
    then have "k \<notin> set (filter (\<lambda>k. k \<in> T) (map fst res))" by simp
    then show ?thesis using Cons [of ch] kv False by (simp add: delete_keys_skip)
  qed
qed

lemma for_each_length: "for_each body xs s = (ys, s') \<Longrightarrow> length ys = length xs"
  by (induction xs arbitrary: s ys s') (auto split: prod.splits)

lemma get_resources_dict_items [simp]:
  "get_resources_dict (dict_set actor ''items'' v) = get_resources_dict actor"
  by (simp add: get_resources_dict_def)

lemma get_resources_dict_put:
  "get_resources_dict actor = Some res \<Longrightarrow> get_resources_dict (put_resources actor res') = Some res'"
  by (auto simp: get_resources_dict_def put_resources_def split: json.splits)

lemma fix_actor_char:
  assumes "dict_get actor ''items'' = JList items"
  shows "\<exists>actor' changed changes.
           fix_actor_identifiers_and_resources actor = Inr (actor', changed, changes) \<and>
           get_resources_dict actor' =
             map_option (filter (\<lambda>(k, v). k \<notin> set (item_tags_in_actor items)))
               (get_resources_dict actor)"
proof -
  obtain items1 seen1 tags changed1 changes1 where
    p1: "for_each fix_item_tag items ([], [], False, []) = (items1, seen1, tags, changed1, changes1)"
    by (metis prod_cases5)
  obtain items2 seen2 changed2 changes2 where
    p2: "for_each fix_item_actions items1 (seen1, changed1, changes1) = (items2, seen2, changed2, changes2)"
    by (metis prod_cases4)
  have t: "item_tags_in_actor items = tags" by (simp add: item_tags_in_actor_def p1)
  show ?thesis
  proof (cases "get_resources_dict actor")
    case None
    then show ?thesis using assms p1 p2
      by (simp add: fix_actor_identifiers_and_resources_def)
  next
    case (Some res)
    show ?thesis
    proof (cases "filter (\<lambda>k. k \<in> set tags) (map fst res) = []")
      case True
      then have "filter (\<lambda>(k, v). k \<notin> set tags) res = res"
        by (auto simp: filter_empty_conv filter_id_conv)
      then show ?thesis using assms p1 p2 Some True t
        by (simp add: fix_actor_identifiers_and_resources_def)
    next
      case False
      then show ?thesis using assms p1 p2 Some t
        by (auto simp: fix_actor_identifiers_and_resources_def delete_keys_filter
            get_resources_dict_put)
    qed
  qed
qed

lemma strip_hd: "strip s \<noteq> [] \<Longrightarrow> \<not> isspace (hd (strip s))"
proof -
  assume a: "strip s \<noteq> []"
  define t where "t = dropWhile isspace s"
  define u where "u = dropWhile isspace (rev t)"
  have s: "strip s = rev u" by (simp add: strip_def t_def u_def)
  with a have une: "u \<noteq> []" by simp
  have "rev t = takeWhile isspace (rev t) @ u" by (simp add: u_def)
  then have "t = rev u @ rev (takeWhile isspace (rev t))"
    by (metis rev_append rev_rev_ident)
  then have "hd t = hd (rev u)" using une by (metis hd_append2 rev_is_Nil_conv)
  moreover have "t \<noteq> []" using une by (auto simp: u_def)
  then have "\<not> isspace (hd t)" unfolding t_def by (rule hd_dropWhile)
  ultimately show ?thesis using s by simp
qed








lemma unique_tag_loop_fresh: "unique_tag_loop cand seen i \<notin> set seen"
  by (induction cand seen i rule: unique_tag_loop.induct) (subst unique_tag_loop.simps, simp)

lemma unique_tag_fresh: "unique_tag base suffix seen \<notin> set seen"
  by (simp add: unique_tag_def Let_def unique_tag_loop_fresh)

lemma get_item_tag_set [simp]: "get_item_tag (set_item_tag item new) = tag_of (JStr new)"
  by (simp add: get_item_tag_def set_item_tag_def Let_def)












section \<open>The loop over the lines of a file\<close>

lemma process_lines_nth:
  "process_lines body n lines = Inr (outs, patched, report) \<Longrightarrow>
   length outs = length lines \<and>
   (\<forall>i < length lines. \<exists>r. body (n + i) (lines ! i) = Inr (outs ! i, r))"
proof (induction lines arbitrary: n outs patched report)
  case Nil
  then show ?case by simp
next
  case (Cons line lines)
  from Cons.prems obtain out r outs' p' rep' where
    b: "body n line = Inr (out, r)" and
    rest: "process_lines body (n + 1) lines = Inr (outs', p', rep')" and
    o: "outs = out # outs'"
    by (auto split: sum.splits prod.splits)
  from Cons.IH [OF rest] have len: "length outs' = length lines"
    and nth: "\<forall>i < length lines. \<exists>r. body (n + 1 + i) (lines ! i) = Inr (outs' ! i, r)" by auto
  have "\<exists>r. body (n + i) ((line # lines) ! i) = Inr (outs ! i, r)" if "i < length (line # lines)" for i
  proof (cases i)
    case 0
    then show ?thesis using b o by auto
  next
    case (Suc j)
    then show ?thesis using nth that o by auto
  qed
  then show ?case using len o by simp
qed

lemma process_line_cases:
  "process_line loads dumps n line = Inr (out, r) \<Longrightarrow>
   (written_as_read loads line \<longrightarrow> out = line) \<and>
   (\<forall>doc. \<not> written_as_read loads line \<and> loads (rstrip_newline line) = Some (JDict doc) \<longrightarrow>
      (\<exists>doc' c l. patch_document doc = Inr (doc', c, l) \<and> out = dumps doc' @ [newline]))"
  by (auto simp: process_line_def written_as_read_def Let_def
      split: if_splits option.splits json.splits sum.splits)

lemma process_line_npc_cases:
  "process_line_npc loads dumps only_npc n line = Inr (out, r) \<Longrightarrow>
   (written_as_read loads line \<longrightarrow> out = line) \<and>
   (\<forall>doc. \<not> written_as_read loads line \<and> loads (rstrip_newline line) = Some (JDict doc) \<longrightarrow>
      (\<exists>doc' c l. patch_document_npc only_npc doc = Inr (doc', c, l) \<and> out = dumps doc' @ [newline]))"
  by (auto simp: process_line_npc_def written_as_read_def Let_def
      split: if_splits option.splits json.splits sum.splits)

section \<open>Framed steps\<close>



lemma map_of_shape_items: "map_of (shape_items kvs) k = map_option shape (map_of kvs k)"
  by (induction kvs) auto

lemma shape_get: "shape (get d p) = get (shape d) p"
proof (induction p arbitrary: d)
  case Nil
  then show ?case by simp
next
  case (Cons a p)
  then show ?case
    by (cases d) (auto simp: map_of_shape_items split: option.splits)
qed

lemma independent_sym: "independent p q \<Longrightarrow> independent q p"
  by (induction p q rule: independent.induct) auto

lemma independent_Nil [simp]: "\<not> independent p []" "\<not> independent [] p"
  by (cases p; simp)+

lemma independent_append [simp]: "independent (r @ p) (r @ q) = independent p q"
  by (induction r) auto

lemma get_write_back_independent:
  "independent p q \<Longrightarrow> get (write_back d p v) q = get d q"
proof (induction p q arbitrary: d rule: independent.induct)
  case (1 a p b q)
  show ?case
  proof (cases d)
    case (JDict dd)
    show ?thesis
    proof (cases "a = b")
      case True
      with 1 have i: "independent p q" by simp
      have "get (write_back (dict_get dd b) p v) q = get (dict_get dd b) q"
        using 1(1) i True by simp
      then show ?thesis using JDict True by (simp add: dict_get_def split: option.splits)
    next
      case False
      then show ?thesis using JDict by simp
    qed
  qed simp_all
qed simp_all

lemma framed_refl: "framed ps d d False"
  by (simp add: framed_def)

lemma framed_seq:
  assumes "framed ps1 a b c1" and "framed ps2 b c c2"
    and "\<And>p q. p \<in> ps1 \<Longrightarrow> q \<in> ps2 \<Longrightarrow> independent p q"
  shows "framed (ps1 \<union> ps2) a c (c1 \<or> c2)"
  unfolding framed_def
proof (intro conjI allI impI)
  fix q assume "\<forall>p\<in>ps1 \<union> ps2. independent p q"
  then show "get c q = get a q" using assms(1,2) by (simp add: framed_def)
next
  assume "c1 \<or> c2"
  then show "\<exists>p\<in>ps1 \<union> ps2. shape (get c p) \<noteq> shape (get a p)"
  proof
    assume c1
    then obtain p where p: "p \<in> ps1" "shape (get b p) \<noteq> shape (get a p)"
      using assms(1) by (auto simp: framed_def)
    then have "\<forall>q\<in>ps2. independent q p" using assms(3) independent_sym by blast
    then have "get c p = get b p" using assms(2) by (simp add: framed_def)
    with p show ?thesis by (metis UnI1)
  next
    assume c2
    then obtain q where q: "q \<in> ps2" "shape (get c q) \<noteq> shape (get b q)"
      using assms(2) by (auto simp: framed_def)
    then have "\<forall>p\<in>ps1. independent p q" using assms(3) by blast
    then have "get b q = get a q" using assms(1) by (simp add: framed_def)
    with q show ?thesis by (metis UnI2)
  qed
next
  assume "\<not> (c1 \<or> c2)"
  then show "c = a" using assms(1,2) by (simp add: framed_def)
qed

lemma framed_collapse: "framed ps e e' c \<Longrightarrow> framed {[]} e e' c"
  by (auto simp: framed_def shape_get)

lemma get_write_back_append: "get d p \<noteq> JNull \<Longrightarrow> get (write_back d p v) (p @ q) = get v q"
  by (simp add: get_append get_write_back)

lemma path_cases:
  "independent p q \<or> (\<exists>r. q = p @ r) \<or> (\<exists>r. r \<noteq> [] \<and> p = q @ r)"
proof (induction p arbitrary: q)
  case Nil
  then show ?case by simp
next
  case (Cons a p)
  show ?case
  proof (cases q)
    case Nil
    then show ?thesis by simp
  next
    case (Cons b q')
    with Cons.IH [of q'] show ?thesis by auto
  qed
qed

lemma framed_lift:
  assumes f: "framed ps e e' c" and g: "get d p0 = e" and n: "e \<noteq> JNull" and ne: "ps \<noteq> {}"
  shows "framed ((@) p0 ` ps) d (write_back d p0 e') c"
  unfolding framed_def
proof (intro conjI allI impI)
  fix q assume a: "\<forall>p\<in>(@) p0 ` ps. independent p q"
  from path_cases [of p0 q] show "get (write_back d p0 e') q = get d q"
  proof (elim disjE exE conjE)
    assume "independent p0 q"
    then show ?thesis by (rule get_write_back_independent)
  next
    fix r assume q: "q = p0 @ r"
    with a have "\<forall>p\<in>ps. independent p r" by simp
    then have "get e' r = get e r" using f by (simp add: framed_def)
    then show ?thesis using q g n by (simp add: get_write_back_append) (simp add: get_append)
  next
    fix r assume r: "r \<noteq> []" "p0 = q @ r"
    from ne obtain p where "p \<in> ps" by auto
    with a have "independent (p0 @ p) q" by auto
    then have "independent (q @ (r @ p)) (q @ [])" using r by simp
    then show ?thesis by (simp only: independent_append independent_Nil)
  qed
next
  assume c
  then obtain p where p: "p \<in> ps" "shape (get e' p) \<noteq> shape (get e p)"
    using f by (auto simp: framed_def)
  then have "shape (get (write_back d p0 e') (p0 @ p)) \<noteq> shape (get d (p0 @ p))"
    using g n by (simp add: get_write_back_append) (simp add: get_append)
  with p(1) show "\<exists>p\<in>(@) p0 ` ps. shape (get (write_back d p0 e') p) \<noteq> shape (get d p)"
    by blast
next
  assume "\<not> c"
  then have "e' = e" using f by (simp add: framed_def)
  then show "write_back d p0 e' = d" using g n by (simp add: write_back_get)
qed


section \<open>The steps of \<open>repair_actor_doc\<close> as framed steps\<close>

lemma get_JDict_single [simp]: "get (JDict t) [k] = dict_get t k"
  by (simp add: dict_get_def split: option.splits)

lemma independent_single: "independent [k] q \<longleftrightarrow> (\<exists>b q'. q = b # q' \<and> b \<noteq> k)"
  by (cases q) auto

lemma framed_field:
  "shape v \<noteq> shape (dict_get t k) \<Longrightarrow> framed {[k]} (JDict t) (JDict (dict_set t k v)) True"
  by (auto simp: framed_def independent_single dict_get_def split: option.splits)

lemma length_shape_elems [simp]: "length (shape_elems vs) = length vs"
  by (induction vs) auto

lemma clean_list_shape: "clean_list v \<noteq> v \<Longrightarrow> shape_elems (clean_list v) \<noteq> shape_elems v"
proof -
  assume "clean_list v \<noteq> v"
  then have "length (clean_list v) \<noteq> length v"
    unfolding clean_list_def by (metis filter_True length_filter_less less_irrefl_nat)
  then show ?thesis by (metis length_shape_elems)
qed

lemma ensure_value_framed:
  "ensure_value key trait = (t2, c, log) \<Longrightarrow>
   framed {[''value'']} (JDict trait) (JDict t2) c \<and> (log = [] \<longleftrightarrow> \<not> c)"
  by (cases "dict_get trait ''value''")
    (auto simp: ensure_value_def Let_def framed_refl clean_list_shape intro!: framed_field
      split: if_splits)

lemma ensure_field_framed:
  "ensure_field key field trait = (t2, c, log) \<Longrightarrow>
   framed {[field]} (JDict trait) (JDict t2) c \<and> (log = [] \<longleftrightarrow> \<not> c)"
  by (cases "dict_get trait field")
    (auto simp: ensure_field_def Let_def framed_refl clean_list_shape intro!: framed_field
      split: if_splits)


lemma shape_not_dict: "\<not> is_dict v \<Longrightarrow> shape v \<noteq> JDict x"
  by (cases v) auto

lemma write_back_single [simp]: "write_back (JDict t) [k] v = JDict (dict_set t k v)"
  by simp

lemma fields_framed:
  assumes "ensure_value key trait = (t2, c2, log2)"
    and "ensure_field key ''custom'' t2 = (t3, c3, log3)"
    and "ensure_field key ''customTotal'' t3 = (t4, c4, log4)"
  shows "framed {[]} (JDict trait) (JDict t4) (c2 \<or> c3 \<or> c4)"
proof -
  have 1: "framed {[''value'']} (JDict trait) (JDict t2) c2"
    using ensure_value_framed [OF assms(1)] by simp
  have 2: "framed {[''custom'']} (JDict t2) (JDict t3) c3"
    using ensure_field_framed [OF assms(2)] by simp
  have 3: "framed {[''customTotal'']} (JDict t3) (JDict t4) c4"
    using ensure_field_framed [OF assms(3)] by simp
  have "framed ({[''value'']} \<union> {[''custom'']}) (JDict trait) (JDict t3) (c2 \<or> c3)"
    by (rule framed_seq [OF 1 2]) simp
  then have "framed (({[''value'']} \<union> {[''custom'']}) \<union> {[''customTotal'']})
      (JDict trait) (JDict t4) ((c2 \<or> c3) \<or> c4)"
    by (rule framed_seq [OF _ 3]) auto
  then show ?thesis by (simp add: framed_collapse)
qed

lemma ensure_trait_arrays_framed:
  "\<exists>traits' c log.
     ensure_trait_arrays traits key changes = Inr (traits', c, changes @ log) \<and>
     framed {[key]} (JDict traits) (JDict traits') c \<and> (log = [] \<longleftrightarrow> \<not> c)"
proof -
  define trait where
    "trait = (if is_dict (dict_get traits key) then (case dict_get traits key of JDict t \<Rightarrow> t | _ \<Rightarrow> []) else [])"
  obtain t2 c2 log2 where s2: "ensure_value key trait = (t2, c2, log2)" by (metis prod_cases3)
  obtain t3 c3 log3 where s3: "ensure_field key ''custom'' t2 = (t3, c3, log3)" by (metis prod_cases3)
  obtain t4 c4 log4 where s4: "ensure_field key ''customTotal'' t3 = (t4, c4, log4)" by (metis prod_cases3)
  have logs: "(log2 = [] \<longleftrightarrow> \<not> c2)" "(log3 = [] \<longleftrightarrow> \<not> c3)" "(log4 = [] \<longleftrightarrow> \<not> c4)"
    using ensure_value_framed [OF s2] ensure_field_framed [OF s3] ensure_field_framed [OF s4] by auto
  have inner: "framed {[]} (JDict trait) (JDict t4) (c2 \<or> c3 \<or> c4)"
    by (rule fields_framed [OF s2 s3 s4])
  show ?thesis
  proof (cases "is_dict (dict_get traits key)")
    case True
    then have e: "dict_get traits key = JDict trait" by (cases "dict_get traits key") (auto simp: trait_def)
    then have m: "map_of traits key = Some (JDict trait)" by (simp add: dict_get_Some)
    have "framed ((@) [key] ` {[]}) (JDict traits) (write_back (JDict traits) [key] (JDict t4)) (c2 \<or> c3 \<or> c4)"
      by (rule framed_lift [OF inner]) (simp_all add: m)
    then have "framed {[key]} (JDict traits) (JDict (dict_set traits key (JDict t4))) (c2 \<or> c3 \<or> c4)"
      by simp
    moreover have "ensure_trait_arrays traits key changes =
        Inr (dict_set traits key (JDict t4), c2 \<or> c3 \<or> c4, changes @ (log2 @ log3 @ log4))"
      using True e m s2 s3 s4 by (simp add: ensure_trait_arrays_def)
    ultimately show ?thesis using logs by (intro exI conjI) (assumption, assumption, auto)
  next
    case False
    then have t: "trait = []" by (simp add: trait_def)
    have "shape (JDict t4) \<noteq> shape (dict_get traits key)"
      using False shape_not_dict [of "dict_get traits key"] by (metis shape.simps(3))
    then have "framed {[key]} (JDict traits) (JDict (dict_set traits key (JDict t4))) True"
      by (rule framed_field)
    moreover have "ensure_trait_arrays traits key changes =
        Inr (dict_set traits key (JDict t4), True, changes @ (TraitCreated key # log2 @ log3 @ log4))"
      using False t s2 s3 s4 by (simp add: ensure_trait_arrays_def)
    ultimately show ?thesis by (intro exI conjI) (assumption, assumption, auto)
  qed
qed

lemma shape_elems_length: "shape_elems a = shape_elems b \<Longrightarrow> length a = length b"
  using length_shape_elems [of a] length_shape_elems [of b] by simp

lemma filter_nulls_shape:
  "filter (\<lambda>x. x = JNull) vs \<noteq> [] \<Longrightarrow>
   shape (JList (filter (\<lambda>x. x \<noteq> JNull) vs)) \<noteq> shape (JList vs)"
proof -
  assume "filter (\<lambda>x. x = JNull) vs \<noteq> []"
  then obtain x where "x \<in> set vs" "x = JNull" by (auto simp: filter_empty_conv)
  then have "length (filter (\<lambda>x. x \<noteq> JNull) vs) < length vs"
    by (intro length_filter_less [of x]) auto
  then show ?thesis by (auto dest: shape_elems_length)
qed

lemma ensure_traits_loop_framed:
  "distinct keys \<Longrightarrow>
   \<exists>traits' c log.
     ensure_traits_loop keys traits c0 ch0 = Inr (traits', c0 \<or> c, ch0 @ log) \<and>
     framed ((\<lambda>k. [k]) ` set keys) (JDict traits) (JDict traits') c \<and> (log = [] \<longleftrightarrow> \<not> c)"
proof (induction keys arbitrary: traits c0 ch0)
  case Nil
  show ?case by (intro exI [of _ traits] exI [of _ False] exI [of _ "[]"]) (simp add: framed_refl)
next
  case (Cons k ks)
  obtain t1 c1 log1 where
    s1: "ensure_trait_arrays traits k ch0 = Inr (t1, c1, ch0 @ log1)"
    and f1: "framed {[k]} (JDict traits) (JDict t1) c1" and l1: "log1 = [] \<longleftrightarrow> \<not> c1"
    using ensure_trait_arrays_framed [of traits k ch0] by blast
  from Cons.prems have d: "distinct ks" "k \<notin> set ks" by auto
  from Cons.IH [OF d(1), of t1 "c0 \<or> c1" "ch0 @ log1"] obtain t2 c2 log2 where
    s2: "ensure_traits_loop ks t1 (c0 \<or> c1) (ch0 @ log1) = Inr (t2, (c0 \<or> c1) \<or> c2, (ch0 @ log1) @ log2)"
    and f2: "framed ((\<lambda>k. [k]) ` set ks) (JDict t1) (JDict t2) c2" and l2: "log2 = [] \<longleftrightarrow> \<not> c2"
    by blast
  have "framed ({[k]} \<union> (\<lambda>k. [k]) ` set ks) (JDict traits) (JDict t2) (c1 \<or> c2)"
  proof (rule framed_seq [OF f1 f2])
    fix p q assume "p \<in> {[k]}" "q \<in> (\<lambda>k. [k]) ` set ks"
    then show "independent p q" using d(2) by auto
  qed
  then have f: "framed ((\<lambda>k. [k]) ` set (k # ks)) (JDict traits) (JDict t2) (c1 \<or> c2)" by simp
  have e: "ensure_traits_loop (k # ks) traits c0 ch0 = Inr (t2, c0 \<or> (c1 \<or> c2), ch0 @ (log1 @ log2))"
    using s1 s2 by simp
  have l: "log1 @ log2 = [] \<longleftrightarrow> \<not> (c1 \<or> c2)" using l1 l2 by simp
  show ?case
    by (intro exI [of _ t2] exI [of _ "c1 \<or> c2"] exI [of _ "log1 @ log2"] conjI) (rule e, rule f, rule l)
qed

lemma purge_language_nulls_framed:
  "\<exists>doc2 c log.
     purge_language_nulls doc changed changes = Inr (doc2, changed \<or> c, changes @ log) \<and>
     framed {languages_path @ [''value'']} doc doc2 c \<and> (log = [] \<longleftrightarrow> \<not> c)"
proof (cases "\<exists>vs. get doc (languages_path @ [''value'']) = JList vs \<and> filter (\<lambda>x. x = JNull) vs \<noteq> []")
  case True
  then obtain vs where g: "get doc (languages_path @ [''value'']) = JList vs"
    and n: "filter (\<lambda>x. x = JNull) vs \<noteq> []" by blast
  define new where "new = JList (filter (\<lambda>x. x \<noteq> JNull) vs)"
  define doc2 where "doc2 = write_back doc (languages_path @ [''value'']) new"
  have nn: "get doc (languages_path @ [''value'']) \<noteq> JNull" using g by simp
  have e: "ensure_dict_path doc languages_path = Inr doc"
    by (rule ensure_dict_path_id [OF nn]) simp
  have isd: "is_dict (get doc languages_path)" by (rule get_nonnull_is_dict [OF nn]) simp
  then have "get doc languages_path \<noteq> JNull" by (cases "get doc languages_path") simp_all
  then have s: "set_item_at doc languages_path ''value'' new = Inr doc2"
    unfolding doc2_def using isd by (rule set_item_at_write_back)
  have "framed {[]} (JList vs) new True"
    using filter_nulls_shape [OF n] by (simp add: framed_def new_def)
  then have "framed ((@) (languages_path @ [''value'']) ` {[]}) doc doc2 True"
    unfolding doc2_def by (rule framed_lift) (simp_all add: g)
  then have f: "framed {languages_path @ [''value'']} doc doc2 True"
    by simp
  have p: "purge_language_nulls doc changed changes =
      Inr (doc2, changed \<or> True, changes @ [LanguagesNulls (length (filter (\<lambda>x. x = JNull) vs))])"
    using g n e s by (simp add: purge_language_nulls_def new_def)
  show ?thesis
    by (intro exI [of _ doc2] exI [of _ True]
        exI [of _ "[LanguagesNulls (length (filter (\<lambda>x. x = JNull) vs))]"] conjI)
      (rule p, rule f, simp)
next
  case False
  then have p: "purge_language_nulls doc changed changes = Inr (doc, changed \<or> False, changes @ [])"
    by (cases "get doc (languages_path @ [''value''])") (auto simp: purge_language_nulls_def Let_def)
  show ?thesis
    by (intro exI [of _ doc] exI [of _ False] exI [of _ "[]"] conjI) (rule p, rule framed_refl, simp)
qed

lemma convert_globally_char:
  "convert_globally doc changed changes =
     (if int_ok doc
      then Inr (spec_normalize doc, changed \<or> spec_normalize doc \<noteq> doc,
                if spec_normalize doc \<noteq> doc then changes @ [GlobalConverted] else changes)
      else Inl ValueError)"
  by (simp add: convert_globally_def cpns_char)




section \<open>The steps of \<open>repair_doc\<close> as framed steps\<close>

lemma fix_field_framed:
  "fix_field k field trait = (t2, c, log) \<Longrightarrow>
   framed {[field]} (JDict trait) (JDict t2) c \<and> (log = [] \<longleftrightarrow> \<not> c)"
  by (cases "dict_get trait field")
    (auto simp: fix_field_def Let_def framed_refl clean_list_shape intro!: framed_field
      split: if_splits)

lemma fix_fields_framed:
  "\<exists>traits' c log.
     fix_fields k traits = (traits', c, log) \<and>
     framed {[k, ''custom''], [k, ''customTotal'']} (JDict traits) (JDict traits') c \<and>
     (log = [] \<longleftrightarrow> \<not> c)"
proof (cases "is_dict (dict_get traits k)")
  case False
  then have r: "fix_fields k traits = (traits, False, [])"
    by (cases "dict_get traits k") (simp_all add: fix_fields_def)
  show ?thesis
    by (intro exI [of _ traits] exI [of _ False] exI [of _ "[]"] conjI) (rule r, rule framed_refl, simp)
next
  case True
  then obtain trait where e: "dict_get traits k = JDict trait" by (cases "dict_get traits k") auto
  then have m: "map_of traits k = Some (JDict trait)" by (simp add: dict_get_Some)
  obtain t1 c1 log1 where s1: "fix_field k ''custom'' trait = (t1, c1, log1)" by (metis prod_cases3)
  obtain t2 c2 log2 where s2: "fix_field k ''customTotal'' t1 = (t2, c2, log2)" by (metis prod_cases3)
  have f1: "framed {[''custom'']} (JDict trait) (JDict t1) c1" and l1: "log1 = [] \<longleftrightarrow> \<not> c1"
    using fix_field_framed [OF s1] by simp_all
  have f2: "framed {[''customTotal'']} (JDict t1) (JDict t2) c2" and l2: "log2 = [] \<longleftrightarrow> \<not> c2"
    using fix_field_framed [OF s2] by simp_all
  have "framed ({[''custom'']} \<union> {[''customTotal'']}) (JDict trait) (JDict t2) (c1 \<or> c2)"
    by (rule framed_seq [OF f1 f2]) simp
  then have "framed ((@) [k] ` ({[''custom'']} \<union> {[''customTotal'']})) (JDict traits)
      (write_back (JDict traits) [k] (JDict t2)) (c1 \<or> c2)"
    by (rule framed_lift) (simp_all add: m)
  moreover have "(@) [k] ` ({[''custom'']} \<union> {[''customTotal'']}) = {[k, ''custom''], [k, ''customTotal'']}"
    by auto
  ultimately have f: "framed {[k, ''custom''], [k, ''customTotal'']} (JDict traits)
      (JDict (dict_set traits k (JDict t2))) (c1 \<or> c2)"
    by (simp only: write_back_single)
  have r: "fix_fields k traits = (dict_set traits k (JDict t2), c1 \<or> c2, log1 @ log2)"
    using e s1 s2 by (simp add: fix_fields_def)
  have l: "log1 @ log2 = [] \<longleftrightarrow> \<not> (c1 \<or> c2)" using l1 l2 by simp
  show ?thesis
    by (intro exI [of _ "dict_set traits k (JDict t2)"] exI [of _ "c1 \<or> c2"] exI [of _ "log1 @ log2"] conjI)
      (rule r, rule f, rule l)
qed

lemma split_value_framed:
  "\<exists>traits' c log.
     split_value k traits = (traits', c, log) \<and>
     framed {[k, ''value'']} (JDict traits) (JDict traits') c \<and>
     (log = [] \<longleftrightarrow> \<not> c)"
proof (cases "\<exists>trait v. dict_get traits k = JDict trait \<and> dict_get trait ''value'' = JStr v \<and>
    (CHR '';'' \<in> set v \<or> CHR '','' \<in> set v)")
  case False
  then have r: "split_value k traits = (traits, False, [])"
    by (auto simp: split_value_def split: json.splits)
  show ?thesis
    by (intro exI [of _ traits] exI [of _ False] exI [of _ "[]"] conjI) (rule r, rule framed_refl, simp)
next
  case True
  then obtain trait v where e: "dict_get traits k = JDict trait"
    and v: "dict_get trait ''value'' = JStr v" and sep: "CHR '';'' \<in> set v \<or> CHR '','' \<in> set v"
    by blast
  have m: "map_of traits k = Some (JDict trait)" using e by (simp add: dict_get_Some)
  define new where "new = JList (map JStr (str_to_list v))"
  have "framed {[''value'']} (JDict trait) (JDict (dict_set trait ''value'' new)) True"
    by (rule framed_field) (simp add: v new_def)
  then have "framed ((@) [k] ` {[''value'']}) (JDict traits)
      (write_back (JDict traits) [k] (JDict (dict_set trait ''value'' new))) True"
    by (rule framed_lift) (simp_all add: m)
  then have f: "framed {[k, ''value'']} (JDict traits)
      (JDict (dict_set traits k (JDict (dict_set trait ''value'' new)))) True"
    by simp
  have r: "split_value k traits =
      (dict_set traits k (JDict (dict_set trait ''value'' new)), True, [ValueSplit k (length (str_to_list v))])"
    using e v sep by (auto simp: split_value_def new_def Let_def)
  show ?thesis
    by (intro exI [of _ "dict_set traits k (JDict (dict_set trait ''value'' new))"] exI [of _ True]
        exI [of _ "[ValueSplit k (length (str_to_list v))]"] conjI)
      (rule r, rule f, simp)
qed

lemma for_keys_framed:
  assumes body: "\<And>k traits. \<exists>traits' c log.
      body k traits = (traits', c, log) \<and> framed (F k) (JDict traits) (JDict traits') c \<and>
      (log = [] \<longleftrightarrow> \<not> c)"
    and indep: "\<And>k k' p q. k \<noteq> k' \<Longrightarrow> p \<in> F k \<Longrightarrow> q \<in> F k' \<Longrightarrow> independent p q"
    and "distinct keys"
  shows "\<exists>traits' c log.
     for_keys body keys (traits, c0, ch0) = (traits', c0 \<or> c, ch0 @ log) \<and>
     framed (\<Union>k\<in>set keys. F k) (JDict traits) (JDict traits') c \<and> (log = [] \<longleftrightarrow> \<not> c)"
  using assms(3)
proof (induction keys arbitrary: traits c0 ch0)
  case Nil
  show ?case by (intro exI [of _ traits] exI [of _ False] exI [of _ "[]"]) (simp add: framed_refl)
next
  case (Cons k ks)
  from body [of k traits] obtain t1 c1 log1 where
    s1: "body k traits = (t1, c1, log1)"
    and f1: "framed (F k) (JDict traits) (JDict t1) c1" and l1: "log1 = [] \<longleftrightarrow> \<not> c1"
    by blast
  from Cons.prems have d: "distinct ks" "k \<notin> set ks" by auto
  from Cons.IH [OF d(1), of t1 "c0 \<or> c1" "ch0 @ log1"] obtain t2 c2 log2 where
    s2: "for_keys body ks (t1, c0 \<or> c1, ch0 @ log1) = (t2, (c0 \<or> c1) \<or> c2, (ch0 @ log1) @ log2)"
    and f2: "framed (\<Union>k\<in>set ks. F k) (JDict t1) (JDict t2) c2" and l2: "log2 = [] \<longleftrightarrow> \<not> c2"
    by blast
  have "framed (F k \<union> (\<Union>k\<in>set ks. F k)) (JDict traits) (JDict t2) (c1 \<or> c2)"
  proof (rule framed_seq [OF f1 f2])
    fix p q assume p: "p \<in> F k" and "q \<in> (\<Union>k\<in>set ks. F k)"
    then obtain k' where k': "k' \<in> set ks" and q: "q \<in> F k'" by auto
    from k' d(2) have "k \<noteq> k'" by auto
    from this p q show "independent p q" by (rule indep)
  qed
  then have f: "framed (\<Union>k\<in>set (k # ks). F k) (JDict traits) (JDict t2) (c1 \<or> c2)" by simp
  have e: "for_keys body (k # ks) (traits, c0, ch0) = (t2, c0 \<or> (c1 \<or> c2), ch0 @ (log1 @ log2))"
    using s1 s2 by simp
  have l: "log1 @ log2 = [] \<longleftrightarrow> \<not> (c1 \<or> c2)" using l1 l2 by simp
  show ?case
    by (intro exI [of _ t2] exI [of _ "c1 \<or> c2"] exI [of _ "log1 @ log2"] conjI) (rule e, rule f, rule l)
qed

lemma get_write_back_prefix:
  "get d p \<noteq> JNull \<Longrightarrow> get (write_back d (p @ q) v) p = write_back (get d p) q v"
  by (induction d p rule: get.induct) (auto split: json.splits option.splits simp: dict_get_def)

lemma purge_language_nulls_form:
  "purge_language_nulls doc c ch = Inr (doc2, c', ch') \<Longrightarrow>
   doc2 = doc \<or> (\<exists>new. get doc (languages_path @ [''value'']) \<noteq> JNull \<and>
                    doc2 = write_back doc (languages_path @ [''value'']) new)"
proof (cases "\<exists>vs. get doc (languages_path @ [''value'']) = JList vs \<and> filter (\<lambda>x. x = JNull) vs \<noteq> []")
  case True
  assume a: "purge_language_nulls doc c ch = Inr (doc2, c', ch')"
  from True obtain vs where g: "get doc (languages_path @ [''value'']) = JList vs"
    and n: "filter (\<lambda>x. x = JNull) vs \<noteq> []" by blast
  have nn: "get doc (languages_path @ [''value'']) \<noteq> JNull" using g by simp
  have e: "ensure_dict_path doc languages_path = Inr doc"
    by (rule ensure_dict_path_id [OF nn]) simp
  have isd: "is_dict (get doc languages_path)" by (rule get_nonnull_is_dict [OF nn]) simp
  then have "get doc languages_path \<noteq> JNull" by (cases "get doc languages_path") simp_all
  then have s: "set_item_at doc languages_path ''value'' new =
      Inr (write_back doc (languages_path @ [''value'']) new)" for new
    using isd by (rule set_item_at_write_back)
  from a g n e s have "doc2 = write_back doc (languages_path @ [''value'']) (JList (filter (\<lambda>x. x \<noteq> JNull) vs))"
    by (simp add: purge_language_nulls_def)
  with nn show ?thesis by blast
next
  case False
  assume a: "purge_language_nulls doc c ch = Inr (doc2, c', ch')"
  from False have "purge_language_nulls doc c ch = Inr (doc, c, ch)"
    by (cases "get doc (languages_path @ [''value''])") (auto simp: purge_language_nulls_def Let_def)
  with a show ?thesis by simp
qed

lemma purge_keeps_traits_dict:
  assumes "purge_language_nulls doc c ch = Inr (doc2, c', ch')" and "is_dict (get doc traits_path)"
  shows "is_dict (get doc2 traits_path)"
proof -
  from purge_language_nulls_form [OF assms(1)] show ?thesis
  proof
    assume "doc2 = doc" with assms(2) show ?thesis by simp
  next
    assume "\<exists>new. get doc (languages_path @ [''value'']) \<noteq> JNull \<and>
                    doc2 = write_back doc (languages_path @ [''value'']) new"
    then obtain new where d: "doc2 = write_back doc (traits_path @ [''languages'', ''value'']) new"
      by (auto simp: languages_path_def traits_path_def)
    obtain t where t: "get doc traits_path = JDict t" using assms(2) by (cases "get doc traits_path") auto
    then have "get doc2 traits_path = write_back (JDict t) [''languages'', ''value''] new"
      unfolding d using get_write_back_prefix [of doc traits_path] by simp
    then show ?thesis by simp
  qed
qed

lemma plus_log_empty:
  "int_ok_at v \<Longrightarrow> (plus_log_at p v = [] \<longleftrightarrow> spec_norm_value v = v)"
  "int_ok_items kvs \<Longrightarrow> (plus_log_items kvs = [] \<longleftrightarrow> spec_norm_items kvs = kvs)"
  "int_ok_elems vs \<Longrightarrow> (plus_log_elems i vs = [] \<longleftrightarrow> spec_norm_elems vs = vs)"
  by (induction p v and kvs and i vs rule: plus_log_at_plus_log_items_plus_log_elems.induct)
    (auto dest: spec_plus_imp)

lemma plus_log_empty_top: "int_ok v \<Longrightarrow> (plus_log v = [] \<longleftrightarrow> spec_normalize v = v)"
  by (cases v) (auto simp: plus_log_def int_ok_def spec_normalize_def plus_log_empty)




section \<open>Trimmed strings and normalized values\<close>

lemma strip_last: "strip s \<noteq> [] \<Longrightarrow> \<not> isspace (last (strip s))"
proof -
  assume a: "strip s \<noteq> []"
  define w where "w = dropWhile isspace (rev (dropWhile isspace s))"
  have s: "strip s = rev w" by (simp add: strip_def w_def)
  with a have "w \<noteq> []" by simp
  then have "\<not> isspace (hd w)" unfolding w_def by (rule hd_dropWhile)
  moreover have "last (rev w) = hd w" using \<open>w \<noteq> []\<close> by (simp add: last_rev)
  ultimately show ?thesis using s by simp
qed

lemma dropWhile_hd: "xs \<noteq> [] \<Longrightarrow> \<not> P (hd xs) \<Longrightarrow> dropWhile P xs = xs"
  by (cases xs) auto

lemma strip_strip [simp]: "strip (strip s) = strip s"
proof (cases "strip s = []")
  case True
  moreover have "strip [] = []" by (simp add: strip_def)
  ultimately show ?thesis by simp
next
  case False
  define u where "u = strip s"
  have h: "\<not> isspace (hd u)" and l: "\<not> isspace (last u)" and ne: "u \<noteq> []"
    using False strip_hd strip_last by (simp_all add: u_def)
  have 1: "dropWhile isspace u = u" using h ne by (simp add: dropWhile_hd)
  have "hd (rev u) = last u" using ne by (simp add: hd_rev)
  then have 2: "dropWhile isspace (rev u) = rev u" using l ne by (intro dropWhile_hd) simp_all
  have "strip u = u" by (simp add: strip_def 1 2)
  then show ?thesis by (simp add: u_def)
qed

lemma str_to_list_kept: "list_all keep_trait (map JStr (str_to_list s))"
  by (auto simp: str_to_list_def list_all_iff nonblank_def)

lemma clean_list_kept: "list_all keep_trait (clean_list v)"
  by (simp add: clean_list_def list_all_iff)

lemma clean_list_id: "list_all keep_trait v \<Longrightarrow> clean_list v = v"
  by (simp add: clean_list_def list_all_iff filter_id_conv)

lemma clean_list_same: "clean_list v = v \<Longrightarrow> list_all keep_trait v"
  using clean_list_kept [of v] by simp

lemma map_of_spec_norm_items:
  "map_of (spec_norm_items kvs) k = map_option spec_norm_value (map_of kvs k)"
  by (induction kvs) auto

lemma get_spec_norm_value: "get (spec_norm_value d) p = spec_norm_value (get d p)"
proof (induction p arbitrary: d)
  case Nil
  then show ?case by simp
next
  case (Cons a p)
  then show ?case
    by (cases d) (auto simp: map_of_spec_norm_items split: option.splits)
qed

lemma get_spec_normalize: "p \<noteq> [] \<Longrightarrow> get (spec_normalize d) p = spec_norm_value (get d p)"
proof (cases "is_str d")
  case False
  then show ?thesis by (simp add: spec_normalize_def get_spec_norm_value)
next
  case True
  assume "p \<noteq> []"
  with True show ?thesis by (cases d; cases p) (simp_all add: spec_normalize_def)
qed

lemma spec_norm_idem:
  "spec_norm_value (spec_norm_value v) = spec_norm_value v"
  "spec_norm_items (spec_norm_items kvs) = spec_norm_items kvs"
  "spec_norm_elems (spec_norm_elems vs) = spec_norm_elems vs"
  by (induction v and kvs and vs rule: spec_norm_value_spec_norm_items_spec_norm_elems.induct) auto

lemma spec_normalize_idem [simp]: "spec_normalize (spec_normalize v) = spec_normalize v"
  by (cases v) (auto simp: spec_normalize_def spec_norm_idem)

lemma int_ok_spec_norm:
  "int_ok_at v \<Longrightarrow> int_ok_at (spec_norm_value v)"
  "int_ok_items kvs \<Longrightarrow> int_ok_items (spec_norm_items kvs)"
  "int_ok_elems vs \<Longrightarrow> int_ok_elems (spec_norm_elems vs)"
  by (induction v and kvs and vs rule: spec_norm_value_spec_norm_items_spec_norm_elems.induct) auto

lemma int_ok_spec_normalize: "int_ok v \<Longrightarrow> int_ok (spec_normalize v)"
  by (cases v) (auto simp: int_ok_def spec_normalize_def int_ok_spec_norm)

section \<open>Trait entries after \<open>repair_actor_doc\<close>\<close>

lemma ensure_value_post:
  "ensure_value key trait = (t2, c, log) \<Longrightarrow>
   clean_value (dict_get t2 ''value'') \<and> (\<forall>f. f \<noteq> ''value'' \<longrightarrow> dict_get t2 f = dict_get trait f)"
  by (cases "dict_get trait ''value''")
    (auto simp: ensure_value_def Let_def str_to_list_kept clean_list_kept clean_list_same
      split: if_splits)

lemma ensure_field_post:
  "ensure_field key field trait = (t2, c, log) \<Longrightarrow>
   clean_field (dict_get t2 field) \<and> (\<forall>f. f \<noteq> field \<longrightarrow> dict_get t2 f = dict_get trait f)"
  by (cases "dict_get trait field")
    (auto simp: ensure_field_def Let_def str_to_list_kept clean_list_kept clean_list_same
      split: if_splits)

lemma ensure_trait_arrays_post:
  assumes "ensure_trait_arrays traits key ch = Inr (traits', c, ch')"
  shows "clean_entry (dict_get traits' key)"
proof -
  define trait where
    "trait = (if is_dict (dict_get traits key) then (case dict_get traits key of JDict t \<Rightarrow> t | _ \<Rightarrow> []) else [])"
  obtain t2 c2 log2 where s2: "ensure_value key trait = (t2, c2, log2)" by (metis prod_cases3)
  obtain t3 c3 log3 where s3: "ensure_field key ''custom'' t2 = (t3, c3, log3)" by (metis prod_cases3)
  obtain t4 c4 log4 where s4: "ensure_field key ''customTotal'' t3 = (t4, c4, log4)" by (metis prod_cases3)
  have "clean_value (dict_get t2 ''value'')" using ensure_value_post [OF s2] by simp
  then have "clean_value (dict_get t3 ''value'')" using ensure_field_post [OF s3] by simp
  then have v: "clean_value (dict_get t4 ''value'')" using ensure_field_post [OF s4] by simp
  have "clean_field (dict_get t3 ''custom'')" using ensure_field_post [OF s3] by simp
  then have cu: "clean_field (dict_get t4 ''custom'')" using ensure_field_post [OF s4] by simp
  have ct: "clean_field (dict_get t4 ''customTotal'')" using ensure_field_post [OF s4] by simp
  have e: "clean_entry (JDict t4)" using v cu ct by (simp add: clean_entry_def)
  have "traits' = dict_set traits key (JDict t4)"
  proof (cases "is_dict (dict_get traits key)")
    case True
    then have d: "dict_get traits key = JDict trait" by (cases "dict_get traits key") (auto simp: trait_def)
    then have m: "map_of traits key = Some (JDict trait)" by (simp add: dict_get_Some)
    show ?thesis using assms True d m s2 s3 s4 by (simp add: ensure_trait_arrays_def)
  next
    case False
    then have "trait = []" by (simp add: trait_def)
    then show ?thesis using assms False s2 s3 s4 by (simp add: ensure_trait_arrays_def)
  qed
  then show ?thesis using e by simp
qed

lemma framed_get_single:
  "framed ((\<lambda>k. [k]) ` K) (JDict t) (JDict t') c \<Longrightarrow> k \<notin> K \<Longrightarrow> dict_get t' k = dict_get t k"
proof -
  assume f: "framed ((\<lambda>k. [k]) ` K) (JDict t) (JDict t') c" and k: "k \<notin> K"
  have "\<forall>p\<in>(\<lambda>k. [k]) ` K. independent p [k]" using k by auto
  then have "get (JDict t') [k] = get (JDict t) [k]" using f unfolding framed_def by blast
  then show ?thesis by (simp only: get_JDict_single)
qed

lemma ensure_traits_loop_post:
  "distinct keys \<Longrightarrow> ensure_traits_loop keys traits c0 ch0 = Inr (traits', c', ch') \<Longrightarrow>
   \<forall>k\<in>set keys. clean_entry (dict_get traits' k)"
proof (induction keys arbitrary: traits c0 ch0)
  case Nil
  then show ?case by simp
next
  case (Cons k ks)
  from Cons.prems(2) obtain t1 c1 ch1 where
    s1: "ensure_trait_arrays traits k ch0 = Inr (t1, c1, ch1)"
    and s2: "ensure_traits_loop ks t1 (c0 \<or> c1) ch1 = Inr (traits', c', ch')"
    by (auto split: sum.splits)
  from Cons.prems(1) have d: "distinct ks" "k \<notin> set ks" by auto
  have rest: "\<forall>k\<in>set ks. clean_entry (dict_get traits' k)" by (rule Cons.IH [OF d(1) s2])
  obtain t2 c2 log2 where
    e2: "ensure_traits_loop ks t1 (c0 \<or> c1) ch1 = Inr (t2, (c0 \<or> c1) \<or> c2, ch1 @ log2)"
    and f2: "framed ((\<lambda>k. [k]) ` set ks) (JDict t1) (JDict t2) c2"
    using ensure_traits_loop_framed [OF d(1), of t1 "c0 \<or> c1" ch1] by blast
  from e2 s2 have "t2 = traits'" by simp
  with f2 have "dict_get traits' k = dict_get t1 k" using framed_get_single d(2) by blast
  moreover have "clean_entry (dict_get t1 k)" by (rule ensure_trait_arrays_post [OF s1])
  ultimately show ?case using rest by simp
qed

lemma keep_norm: "keep_trait x \<Longrightarrow> trait_element (spec_norm_value x)"
  by (cases x) auto

lemma keep_norm_elems: "list_all keep_trait vs \<Longrightarrow> list_all trait_element (spec_norm_elems vs)"
  by (induction vs) (auto simp: keep_norm)

lemma clean_value_norm: "clean_value x \<Longrightarrow> value_ok (spec_norm_value x)"
  by (cases x) (auto simp: keep_norm_elems)

lemma clean_field_norm: "clean_field x \<Longrightarrow> field_ok (spec_norm_value x)"
  by (cases x) (auto simp: keep_norm_elems)

lemma unsplit_norm: "unsplit x \<Longrightarrow> unsplit (spec_norm_value x)"
  by (cases x) auto

lemma dict_get_spec_norm_items: "dict_get (spec_norm_items t) k = spec_norm_value (dict_get t k)"
  by (simp add: dict_get_def map_of_spec_norm_items split: option.splits)

lemma spec_norm_null: "spec_norm_value x = JNull \<Longrightarrow> x = JNull"
  by (cases x) (auto split: if_splits)

lemma spec_norm_elems_null: "JNull \<notin> set vs \<Longrightarrow> JNull \<notin> set (spec_norm_elems vs)"
  by (induction vs) (auto dest: spec_norm_null [OF sym])

lemma no_language_nulls_norm: "no_language_nulls d \<Longrightarrow> no_language_nulls (spec_normalize d)"
proof -
  assume a: "no_language_nulls d"
  have g: "get (spec_normalize d) (languages_path @ [''value'']) =
      spec_norm_value (get d (languages_path @ [''value'']))"
    by (rule get_spec_normalize) simp
  show ?thesis
    using a unfolding no_language_nulls_def g
    by (cases "get d (languages_path @ [''value''])") (auto simp: spec_norm_elems_null)
qed

lemma purge_language_nulls_post:
  assumes a: "purge_language_nulls doc c ch = Inr (doc2, c', ch')"
  shows "no_language_nulls doc2"
proof (cases "\<exists>vs. get doc (languages_path @ [''value'']) = JList vs \<and> filter (\<lambda>x. x = JNull) vs \<noteq> []")
  case True
  from True obtain vs where g: "get doc (languages_path @ [''value'']) = JList vs"
    and n: "filter (\<lambda>x. x = JNull) vs \<noteq> []" by blast
  have nn: "get doc (languages_path @ [''value'']) \<noteq> JNull" using g by simp
  have e: "ensure_dict_path doc languages_path = Inr doc"
    by (rule ensure_dict_path_id [OF nn]) simp
  have isd: "is_dict (get doc languages_path)" by (rule get_nonnull_is_dict [OF nn]) simp
  then have "get doc languages_path \<noteq> JNull" by (cases "get doc languages_path") simp_all
  then have s: "set_item_at doc languages_path ''value'' new =
      Inr (write_back doc (languages_path @ [''value'']) new)" for new
    using isd by (rule set_item_at_write_back)
  from a g n e s have "doc2 = write_back doc (languages_path @ [''value'']) (JList (filter (\<lambda>x. x \<noteq> JNull) vs))"
    by (simp add: purge_language_nulls_def)
  then have "get doc2 (languages_path @ [''value'']) = JList (filter (\<lambda>x. x \<noteq> JNull) vs)"
    using get_write_back [OF nn] by simp
  then show ?thesis by (simp add: no_language_nulls_def)
next
  case False
  then have "purge_language_nulls doc c ch = Inr (doc, c, ch)"
    by (cases "get doc (languages_path @ [''value''])") (auto simp: purge_language_nulls_def Let_def)
  with a have "doc2 = doc" by simp
  moreover have "no_language_nulls doc"
    using False by (cases "get doc (languages_path @ [''value''])")
      (auto simp: no_language_nulls_def filter_empty_conv)
  ultimately show ?thesis by simp
qed

lemma purge_language_nulls_id:
  "no_language_nulls doc \<Longrightarrow> purge_language_nulls doc c ch = Inr (doc, c, ch)"
  by (cases "get doc (languages_path @ [''value''])")
    (auto simp: purge_language_nulls_def no_language_nulls_def Let_def filter_empty_conv)

lemma repair_actor_doc_post:
  assumes g: "get doc traits_path = JDict traits"
    and r: "repair_actor_doc doc = Inr (doc', c, l)"
  shows "\<exists>doc2. int_ok doc2 \<and> doc' = spec_normalize doc2 \<and>
           (\<forall>k\<in>set [''eres'', ''dr'', ''dv'']. clean_entry (get doc2 (traits_path @ [k]))) \<and>
           no_language_nulls doc2"
proof -
  from r g obtain t1 c1 l1 doc2 c2 l2 where
    s1: "ensure_traits_loop [''eres'', ''dr'', ''dv''] traits False [] = Inr (t1, c1, l1)"
    and s2: "purge_language_nulls (write_back doc traits_path (JDict t1)) c1 l1 = Inr (doc2, c2, l2)"
    and s3: "convert_globally doc2 c2 l2 = Inr (doc', c, l)"
    by (auto simp: repair_actor_doc_def split: sum.splits)
  define doc1 where "doc1 = write_back doc traits_path (JDict t1)"
  have post1: "\<forall>k\<in>set [''eres'', ''dr'', ''dv'']. clean_entry (dict_get t1 k)"
    by (rule ensure_traits_loop_post [OF _ s1]) simp
  have nn: "get doc traits_path \<noteq> JNull" using g by simp
  have g1: "get doc1 (traits_path @ [k]) = dict_get t1 k" for k
    unfolding doc1_def using get_write_back_append [OF nn, of "JDict t1" "[k]"]
    by (simp only: get_JDict_single)
  obtain d2 cc ll where
    e2: "purge_language_nulls doc1 c1 l1 = Inr (d2, c1 \<or> cc, l1 @ ll)"
    and f2: "framed {languages_path @ [''value'']} doc1 d2 cc"
    using purge_language_nulls_framed [of doc1 c1 l1] by blast
  from e2 s2 have d2: "d2 = doc2" by (simp add: doc1_def)
  have g2: "get doc2 (traits_path @ [k]) = get doc1 (traits_path @ [k])" if "k \<noteq> ''languages''" for k
  proof -
    have "independent (languages_path @ [''value'']) (traits_path @ [k])"
      using that by (simp add: languages_path_def traits_path_def)
    then show ?thesis using f2 d2 by (simp add: framed_def)
  qed
  have "\<forall>k\<in>set [''eres'', ''dr'', ''dv'']. clean_entry (get doc2 (traits_path @ [k]))"
    using post1 g1 g2 by simp
  moreover have "no_language_nulls doc2"
    using purge_language_nulls_post [OF s2] .
  moreover have "int_ok doc2 \<and> doc' = spec_normalize doc2"
    using convert_globally_Inr [OF s3] .
  ultimately show ?thesis by blast
qed

lemma framed_get: "framed ps d d' c \<Longrightarrow> (\<And>p. p \<in> ps \<Longrightarrow> independent p q) \<Longrightarrow> get d' q = get d q"
  by (simp add: framed_def)

lemma fix_field_post:
  "fix_field k field trait = (t2, c, log) \<Longrightarrow>
   clean_field (dict_get t2 field) \<and> (\<forall>g. g \<noteq> field \<longrightarrow> dict_get t2 g = dict_get trait g)"
  by (cases "dict_get trait field")
    (auto simp: fix_field_def Let_def str_to_list_kept clean_list_kept clean_list_same
      split: if_splits)

lemma get_two: "get (JDict traits) [k, f] = (case dict_get traits k of JDict t \<Rightarrow> dict_get t f | _ \<Rightarrow> JNull)"
  by (auto simp: dict_get_def split: option.splits json.splits)

lemma fix_fields_post:
  assumes "fix_fields k traits = (traits', c, log)"
  shows "\<forall>q\<in>field_paths k. clean_field (get (JDict traits') q)"
proof (cases "is_dict (dict_get traits k)")
  case False
  then have "fix_fields k traits = (traits, False, [])"
    by (cases "dict_get traits k") (simp_all add: fix_fields_def)
  with assms have "traits' = traits" by simp
  with False show ?thesis
    by (cases "dict_get traits k") (simp_all add: field_paths_def get_two del: get.simps)
next
  case True
  then obtain trait where e: "dict_get traits k = JDict trait" by (cases "dict_get traits k") auto
  obtain t1 c1 log1 where s1: "fix_field k ''custom'' trait = (t1, c1, log1)" by (metis prod_cases3)
  obtain t2 c2 log2 where s2: "fix_field k ''customTotal'' t1 = (t2, c2, log2)" by (metis prod_cases3)
  have r: "fix_fields k traits = (dict_set traits k (JDict t2), c1 \<or> c2, log1 @ log2)"
    using e s1 s2 by (simp add: fix_fields_def)
  with assms have t: "traits' = dict_set traits k (JDict t2)" by simp
  from fix_field_post [OF s1] have p1: "clean_field (dict_get t1 ''custom'')" by simp
  from fix_field_post [OF s2] have p2: "clean_field (dict_get t2 ''customTotal'')"
    and p3: "dict_get t2 ''custom'' = dict_get t1 ''custom''" by simp_all
  show ?thesis using p1 p2 p3 by (simp add: t field_paths_def get_two del: get.simps)
qed

lemma split_value_post:
  assumes "split_value k traits = (traits', c, log)"
  shows "\<forall>q\<in>value_paths k. unsplit (get (JDict traits') q)"
proof (cases "\<exists>trait v. dict_get traits k = JDict trait \<and> dict_get trait ''value'' = JStr v \<and>
    (CHR '';'' \<in> set v \<or> CHR '','' \<in> set v)")
  case False
  then have r: "split_value k traits = (traits, False, [])"
    by (auto simp: split_value_def split: json.splits)
  with assms have t: "traits' = traits" by simp
  show ?thesis
  proof (cases "dict_get traits k")
    case (JDict trait)
    with False show ?thesis
      by (cases "dict_get trait ''value''") (auto simp: t value_paths_def get_two simp del: get.simps)
  qed (simp_all add: t value_paths_def get_two del: get.simps)
next
  case True
  then obtain trait v where e: "dict_get traits k = JDict trait"
    and v: "dict_get trait ''value'' = JStr v" and sep: "CHR '';'' \<in> set v \<or> CHR '','' \<in> set v"
    by blast
  have "split_value k traits =
      (dict_set traits k (JDict (dict_set trait ''value'' (JList (map JStr (str_to_list v))))), True,
       [ValueSplit k (length (str_to_list v))])"
    using e v sep by (auto simp: split_value_def Let_def)
  with assms show ?thesis by (auto simp: value_paths_def get_two simp del: get.simps)
qed

lemma for_keys_post:
  assumes body: "\<And>k traits. \<exists>traits' c log.
      body k traits = (traits', c, log) \<and> framed (F k) (JDict traits) (JDict traits') c \<and>
      (log = [] \<longleftrightarrow> \<not> c)"
    and post: "\<And>k traits traits' c log. body k traits = (traits', c, log) \<Longrightarrow>
      \<forall>q\<in>G k. R (get (JDict traits') q)"
    and indep: "\<And>k k' p q. k \<noteq> k' \<Longrightarrow> p \<in> F k \<Longrightarrow> q \<in> G k' \<Longrightarrow> independent p q"
    and indep': "\<And>k k' p q. k \<noteq> k' \<Longrightarrow> p \<in> F k \<Longrightarrow> q \<in> F k' \<Longrightarrow> independent p q"
    and "distinct keys"
    and "for_keys body keys (traits, c0, ch0) = (traits', c', ch')"
  shows "\<forall>k\<in>set keys. \<forall>q\<in>G k. R (get (JDict traits') q)"
  using assms(5,6)
proof (induction keys arbitrary: traits c0 ch0)
  case Nil
  show ?case by simp
next
  case (Cons k ks)
  obtain t1 c1 log1 where s1: "body k traits = (t1, c1, log1)" by (metis prod_cases3)
  from Cons.prems have d: "distinct ks" "k \<notin> set ks" by auto
  from Cons.prems(2) s1 have s2: "for_keys body ks (t1, c0 \<or> c1, ch0 @ log1) = (traits', c', ch')"
    by simp
  have ih: "\<forall>k\<in>set ks. \<forall>q\<in>G k. R (get (JDict traits') q)"
    by (rule Cons.IH [OF d(1) s2])
  have "\<exists>traits' c log.
     for_keys body ks (t1, c0 \<or> c1, ch0 @ log1) = (traits', (c0 \<or> c1) \<or> c, (ch0 @ log1) @ log) \<and>
     framed (\<Union>k\<in>set ks. F k) (JDict t1) (JDict traits') c \<and> (log = [] \<longleftrightarrow> \<not> c)"
  proof (rule for_keys_framed)
    fix k traits
    show "\<exists>traits' c log. body k traits = (traits', c, log) \<and>
        framed (F k) (JDict traits) (JDict traits') c \<and> (log = [] \<longleftrightarrow> \<not> c)"
      by (rule body)
  next
    fix k k' :: string and p q
    assume "k \<noteq> k'" "p \<in> F k" "q \<in> F k'"
    then show "independent p q" by (rule indep')
  next
    show "distinct ks" by (rule d(1))
  qed
  then obtain t2 c2 log2 where
    e2: "for_keys body ks (t1, c0 \<or> c1, ch0 @ log1) = (t2, (c0 \<or> c1) \<or> c2, (ch0 @ log1) @ log2)"
    and f2: "framed (\<Union>k\<in>set ks. F k) (JDict t1) (JDict t2) c2"
    by blast
  from e2 s2 have t2: "t2 = traits'" by simp
  have "R (get (JDict traits') q)" if q: "q \<in> G k" for q
  proof -
    have "get (JDict t2) q = get (JDict t1) q"
    proof (rule framed_get [OF f2])
      fix p assume "p \<in> (\<Union>k\<in>set ks. F k)"
      then obtain k' where k': "k' \<in> set ks" and p: "p \<in> F k'" by auto
      from k' d(2) have "k' \<noteq> k" by auto
      from this p q show "independent p q" by (rule indep)
    qed
    moreover have "R (get (JDict t1) q)" using post [OF s1] q by simp
    ultimately show ?thesis by (simp add: t2)
  qed
  with ih show ?case by simp
qed

lemma get_below_non_dict: "\<not> is_dict (get d p) \<Longrightarrow> q \<noteq> [] \<Longrightarrow> get d (p @ q) = JNull"
  by (cases "get d p"; cases q) (auto simp: get_append)

lemma fix_fields_loop:
  "\<exists>traits' c log.
     for_keys fix_fields TRAIT_KEYS (traits, c0, ch0) = (traits', c0 \<or> c, ch0 @ log) \<and>
     framed (\<Union>k\<in>set TRAIT_KEYS. field_paths k) (JDict traits) (JDict traits') c \<and> (log = [] \<longleftrightarrow> \<not> c)"
proof (rule for_keys_framed)
  fix k traits
  show "\<exists>traits' c log. fix_fields k traits = (traits', c, log) \<and>
      framed (field_paths k) (JDict traits) (JDict traits') c \<and> (log = [] \<longleftrightarrow> \<not> c)"
    unfolding field_paths_def by (rule fix_fields_framed)
next
  fix k k' :: string and p q
  assume "k \<noteq> k'" "p \<in> field_paths k" "q \<in> field_paths k'"
  then show "independent p q" by (auto simp: field_paths_def)
next
  show "distinct TRAIT_KEYS" by (simp add: TRAIT_KEYS_def)
qed

lemma split_value_loop:
  "\<exists>traits' c log.
     for_keys split_value [''di'', ''dv'', ''ci''] (traits, c0, ch0) = (traits', c0 \<or> c, ch0 @ log) \<and>
     framed (\<Union>k\<in>set [''di'', ''dv'', ''ci'']. value_paths k) (JDict traits) (JDict traits') c \<and>
     (log = [] \<longleftrightarrow> \<not> c)"
proof (rule for_keys_framed)
  fix k traits
  show "\<exists>traits' c log. split_value k traits = (traits', c, log) \<and>
      framed (value_paths k) (JDict traits) (JDict traits') c \<and> (log = [] \<longleftrightarrow> \<not> c)"
    unfolding value_paths_def by (rule split_value_framed)
next
  fix k k' :: string and p q
  assume "k \<noteq> k'" "p \<in> value_paths k" "q \<in> value_paths k'"
  then show "independent p q" by (auto simp: value_paths_def)
next
  show "distinct [''di'', ''dv'', ''ci'']" by simp
qed

lemma fix_fields_loop_post:
  assumes "for_keys fix_fields TRAIT_KEYS (traits, c0, ch0) = (traits', c', ch')"
  shows "\<forall>k\<in>set TRAIT_KEYS. \<forall>q\<in>field_paths k. clean_field (get (JDict traits') q)"
proof (rule for_keys_post [where body = fix_fields and F = field_paths and G = field_paths])
  fix k traits
  show "\<exists>traits' c log. fix_fields k traits = (traits', c, log) \<and>
      framed (field_paths k) (JDict traits) (JDict traits') c \<and> (log = [] \<longleftrightarrow> \<not> c)"
    unfolding field_paths_def by (rule fix_fields_framed)
next
  fix k traits traits' c log
  assume "fix_fields k traits = (traits', c, log)"
  then show "\<forall>q\<in>field_paths k. clean_field (get (JDict traits') q)" by (rule fix_fields_post)
next
  fix k k' :: string and p q
  assume "k \<noteq> k'" "p \<in> field_paths k" "q \<in> field_paths k'"
  then show "independent p q" by (auto simp: field_paths_def)
next
  fix k k' :: string and p q
  assume "k \<noteq> k'" "p \<in> field_paths k" "q \<in> field_paths k'"
  then show "independent p q" by (auto simp: field_paths_def)
next
  show "distinct TRAIT_KEYS" by (simp add: TRAIT_KEYS_def)
next
  show "for_keys fix_fields TRAIT_KEYS (traits, c0, ch0) = (traits', c', ch')" by (rule assms)
qed

lemma split_value_loop_post:
  assumes "for_keys split_value [''di'', ''dv'', ''ci''] (traits, c0, ch0) = (traits', c', ch')"
  shows "\<forall>k\<in>set [''di'', ''dv'', ''ci'']. \<forall>q\<in>value_paths k. unsplit (get (JDict traits') q)"
proof (rule for_keys_post [where body = split_value and F = value_paths and G = value_paths])
  fix k traits
  show "\<exists>traits' c log. split_value k traits = (traits', c, log) \<and>
      framed (value_paths k) (JDict traits) (JDict traits') c \<and> (log = [] \<longleftrightarrow> \<not> c)"
    unfolding value_paths_def by (rule split_value_framed)
next
  fix k traits traits' c log
  assume "split_value k traits = (traits', c, log)"
  then show "\<forall>q\<in>value_paths k. unsplit (get (JDict traits') q)" by (rule split_value_post)
next
  fix k k' :: string and p q
  assume "k \<noteq> k'" "p \<in> value_paths k" "q \<in> value_paths k'"
  then show "independent p q" by (auto simp: value_paths_def)
next
  fix k k' :: string and p q
  assume "k \<noteq> k'" "p \<in> value_paths k" "q \<in> value_paths k'"
  then show "independent p q" by (auto simp: value_paths_def)
next
  show "distinct [''di'', ''dv'', ''ci'']" by simp
next
  show "for_keys split_value [''di'', ''dv'', ''ci''] (traits, c0, ch0) = (traits', c', ch')"
    by (rule assms)
qed

lemma repair_doc_post:
  assumes r: "repair_doc doc = Inr (doc', c, l)"
  shows "\<exists>doc3. int_ok doc3 \<and> doc' = spec_normalize doc3 \<and>
     (\<forall>k\<in>set TRAIT_KEYS. \<forall>q\<in>field_paths k. clean_field (get doc3 (traits_path @ q))) \<and>
     (\<forall>k\<in>set [''di'', ''dv'', ''ci'']. \<forall>q\<in>value_paths k. unsplit (get doc3 (traits_path @ q))) \<and>
     no_language_nulls doc3"
proof (cases "is_dict (get doc traits_path)")
  case False
  then have "repair_doc doc =
       (case convert_plus_number_strings doc (Some []) of
          Inl e \<Rightarrow> Inl e
        | Inr (doc4, c', changes4) \<Rightarrow>
            Inr (doc4, c', (case changes4 of None \<Rightarrow> [] | Some cs \<Rightarrow> cs)))"
    by (cases "get doc traits_path") (simp_all add: repair_doc_def)
  with r obtain c' ch' where "convert_plus_number_strings doc (Some []) = Inr (doc', c', ch')"
    by (auto split: sum.splits)
  then have a: "int_ok doc \<and> doc' = spec_normalize doc" by (rule cpns_Inr)
  have n: "get doc (traits_path @ q) = JNull" if "q \<noteq> []" for q
    using False that by (rule get_below_non_dict)
  have b: "\<forall>k\<in>set TRAIT_KEYS. \<forall>q\<in>field_paths k. clean_field (get doc (traits_path @ q))"
    by (auto simp: field_paths_def n)
  have c: "\<forall>k\<in>set [''di'', ''dv'', ''ci'']. \<forall>q\<in>value_paths k. unsplit (get doc (traits_path @ q))"
    by (auto simp: value_paths_def n)
  have "get doc (traits_path @ [''languages'', ''value'']) = JNull" by (rule n) simp
  then have d: "no_language_nulls doc"
    by (simp add: no_language_nulls_def languages_path_def traits_path_def)
  from a b c d show ?thesis by blast
next
  case True
  then obtain traits0 where g0: "get doc traits_path = JDict traits0"
    by (cases "get doc traits_path") auto
  obtain doc1 c1 log1 where
    s1: "purge_language_nulls doc False [] = Inr (doc1, False \<or> c1, [] @ log1)"
    using purge_language_nulls_framed [of doc False "[]"] by blast
  have "is_dict (get doc1 traits_path)" by (rule purge_keeps_traits_dict [OF s1 True])
  then obtain traits where g: "get doc1 traits_path = JDict traits"
    by (cases "get doc1 traits_path") auto
  obtain t2 c2 log2 where
    s2: "for_keys fix_fields TRAIT_KEYS (traits, c1, log1) = (t2, c1 \<or> c2, log1 @ log2)"
    and f2: "framed (\<Union>k\<in>set TRAIT_KEYS. field_paths k) (JDict traits) (JDict t2) c2"
    using fix_fields_loop [of traits c1 log1] by blast
  obtain t3 c3 log3 where
    s3: "for_keys split_value [''di'', ''dv'', ''ci''] (t2, c1 \<or> c2, log1 @ log2) =
           (t3, (c1 \<or> c2) \<or> c3, (log1 @ log2) @ log3)"
    and f3: "framed (\<Union>k\<in>set [''di'', ''dv'', ''ci'']. value_paths k) (JDict t2) (JDict t3) c3"
    using split_value_loop [of t2 "c1 \<or> c2" "log1 @ log2"] by blast
  define doc3 where "doc3 = write_back doc1 traits_path (JDict t3)"
  have "repair_doc doc =
       (case convert_plus_number_strings doc3 (Some (log1 @ log2 @ log3)) of
          Inl e \<Rightarrow> Inl e
        | Inr (doc4, c', changes4) \<Rightarrow>
            Inr (doc4, (c1 \<or> (c2 \<or> c3)) \<or> c', (case changes4 of None \<Rightarrow> log1 @ log2 @ log3 | Some cs \<Rightarrow> cs)))"
    using g0 s1 g s2 s3 by (simp add: repair_doc_def doc3_def cpns_char)
  with r obtain c' ch' where "convert_plus_number_strings doc3 (Some (log1 @ log2 @ log3)) = Inr (doc', c', ch')"
    by (auto split: sum.splits)
  then have a: "int_ok doc3 \<and> doc' = spec_normalize doc3" by (rule cpns_Inr)
  have nn: "get doc1 traits_path \<noteq> JNull" using g by simp
  have g3: "get doc3 (traits_path @ q) = get (JDict t3) q" for q
    unfolding doc3_def by (rule get_write_back_append [OF nn])
  have p2: "\<forall>k\<in>set TRAIT_KEYS. \<forall>q\<in>field_paths k. clean_field (get (JDict t2) q)"
    by (rule fix_fields_loop_post [OF s2])
  have p3: "\<forall>k\<in>set [''di'', ''dv'', ''ci'']. \<forall>q\<in>value_paths k. unsplit (get (JDict t3) q)"
    by (rule split_value_loop_post [OF s3])
  have k3: "get (JDict t3) q = get (JDict t2) q" if "q \<in> field_paths k" for q k
  proof (rule framed_get [OF f3])
    fix p assume "p \<in> (\<Union>k\<in>set [''di'', ''dv'', ''ci'']. value_paths k)"
    with that show "independent p q" by (auto simp: field_paths_def value_paths_def)
  qed
  have b: "\<forall>k\<in>set TRAIT_KEYS. \<forall>q\<in>field_paths k. clean_field (get doc3 (traits_path @ q))"
    using p2 k3 by (simp add: g3)
  have c: "\<forall>k\<in>set [''di'', ''dv'', ''ci'']. \<forall>q\<in>value_paths k. unsplit (get doc3 (traits_path @ q))"
    using p3 by (simp add: g3)
  have l3: "get (JDict t3) [''languages'', ''value''] = get (JDict t2) [''languages'', ''value'']"
  proof (rule framed_get [OF f3])
    fix p assume "p \<in> (\<Union>k\<in>set [''di'', ''dv'', ''ci'']. value_paths k)"
    then show "independent p [''languages'', ''value'']" by (auto simp: value_paths_def)
  qed
  have l2: "get (JDict t2) [''languages'', ''value''] = get (JDict traits) [''languages'', ''value'']"
  proof (rule framed_get [OF f2])
    fix p assume "p \<in> (\<Union>k\<in>set TRAIT_KEYS. field_paths k)"
    then show "independent p [''languages'', ''value'']" by (auto simp: field_paths_def)
  qed
  have "get doc1 (traits_path @ [''languages'', ''value'']) = get (JDict traits) [''languages'', ''value'']"
    by (simp only: get_append [of doc1 traits_path] g)
  with l2 l3 g3 [of "[''languages'', ''value'']"]
  have "get doc3 (languages_path @ [''value'']) = get doc1 (languages_path @ [''value''])"
    by (simp add: languages_path_def traits_path_def)
  moreover have "no_language_nulls doc1" by (rule purge_language_nulls_post [OF s1])
  ultimately have d: "no_language_nulls doc3" by (simp add: no_language_nulls_def)
  from a b c d show ?thesis by blast
qed

lemma keep_norm_str: "keep_trait x \<Longrightarrow> is_str (spec_norm_value x) \<Longrightarrow> keep_trait (spec_norm_value x)"
  by (cases x) (auto split: if_splits)

lemma keep_norm_elems_str:
  "list_all keep_trait vs \<Longrightarrow> list_all is_str (spec_norm_elems vs) \<Longrightarrow>
   list_all keep_trait (spec_norm_elems vs)"
  by (induction vs) (auto simp: keep_norm_str)

lemma clean_value_norm_str:
  "clean_value x \<Longrightarrow> strings_only (spec_norm_value x) \<Longrightarrow> clean_value (spec_norm_value x)"
  by (cases x) (auto simp: keep_norm_elems_str)

lemma clean_field_norm_str:
  "clean_field x \<Longrightarrow> strings_only (spec_norm_value x) \<Longrightarrow> clean_field (spec_norm_value x)"
  by (cases x) (auto simp: keep_norm_elems_str)

lemma ensure_value_id: "clean_value (dict_get trait ''value'') \<Longrightarrow> ensure_value key trait = (trait, False, [])"
  by (cases "dict_get trait ''value''") (auto simp: ensure_value_def clean_list_id)

lemma ensure_field_id: "clean_field (dict_get trait field) \<Longrightarrow> ensure_field key field trait = (trait, False, [])"
  by (cases "dict_get trait field") (auto simp: ensure_field_def clean_list_id)

lemma fix_field_id: "clean_field (dict_get trait field) \<Longrightarrow> fix_field k field trait = (trait, False, [])"
  by (cases "dict_get trait field") (auto simp: fix_field_def clean_list_id)

lemma ensure_trait_arrays_id:
  assumes "clean_entry (dict_get traits key)"
  shows "ensure_trait_arrays traits key changes = Inr (traits, False, changes)"
proof -
  from assms obtain t where t: "dict_get traits key = JDict t"
    and v: "clean_value (dict_get t ''value'')" and f1: "clean_field (dict_get t ''custom'')"
    and f2: "clean_field (dict_get t ''customTotal'')"
    by (cases "dict_get traits key") (auto simp: clean_entry_def)
  have m: "map_of traits key = Some (JDict t)" using t by (simp add: dict_get_Some)
  have s: "dict_set traits key (JDict t) = traits" using m by (rule dict_set_same)
  show ?thesis
    by (simp add: ensure_trait_arrays_def m t ensure_value_id [OF v] ensure_field_id [OF f1]
        ensure_field_id [OF f2] s)
qed

lemma ensure_traits_loop_id:
  "\<forall>k\<in>set keys. clean_entry (dict_get traits k) \<Longrightarrow>
   ensure_traits_loop keys traits changed changes = Inr (traits, changed, changes)"
  by (induction keys) (simp_all add: ensure_trait_arrays_id)

lemma fix_fields_id:
  assumes "\<forall>q\<in>field_paths k. clean_field (get (JDict traits) q)"
  shows "fix_fields k traits = (traits, False, [])"
proof (cases "dict_get traits k")
  case (JDict t)
  from assms have "clean_field (dict_get t ''custom'')" and "clean_field (dict_get t ''customTotal'')"
    by (simp_all add: field_paths_def get_two JDict del: get.simps)
  moreover have "dict_set traits k (JDict t) = traits" using JDict by (simp add: dict_set_get)
  ultimately show ?thesis by (simp add: fix_fields_def JDict fix_field_id)
qed (simp_all add: fix_fields_def)

lemma split_value_id:
  assumes "\<forall>q\<in>value_paths k. unsplit (get (JDict traits) q)"
  shows "split_value k traits = (traits, False, [])"
proof (cases "dict_get traits k")
  case (JDict t)
  from assms have "unsplit (dict_get t ''value'')"
    by (simp add: value_paths_def get_two JDict del: get.simps)
  then show ?thesis by (cases "dict_get t ''value''") (auto simp: split_value_def JDict)
qed (simp_all add: split_value_def)

lemma for_keys_id:
  "\<forall>k\<in>set keys. body k traits = (traits, False, []) \<Longrightarrow>
   for_keys body keys (traits, c, ch) = (traits, c, ch)"
  by (induction keys) simp_all

lemma repair_actor_doc_stable:
  assumes ok: "int_ok d" and fp: "spec_normalize d = d"
    and entries: "is_dict (get d traits_path) \<longrightarrow>
      (\<forall>k\<in>set [''eres'', ''dr'', ''dv'']. clean_entry (get d (traits_path @ [k])))"
    and nulls: "no_language_nulls d"
  shows "repair_actor_doc d = Inr (d, False, [])"
proof -
  have cg: "convert_globally d False [] = Inr (d, False, [])"
    using ok fp by (simp add: convert_globally_char)
  show ?thesis
  proof (cases "get d traits_path")
    case (JDict traits)
    have "get d (traits_path @ [k]) = dict_get traits k" for k
      by (simp only: get_append [of d traits_path] JDict get_JDict_single)
    with entries JDict have "\<forall>k\<in>set [''eres'', ''dr'', ''dv'']. clean_entry (dict_get traits k)"
      by simp
    then have l: "ensure_traits_loop [''eres'', ''dr'', ''dv''] traits False [] = Inr (traits, False, [])"
      by (rule ensure_traits_loop_id)
    have w: "write_back d traits_path (JDict traits) = d"
      by (rule write_back_get [OF JDict]) simp
    show ?thesis
      by (simp add: repair_actor_doc_def JDict l w purge_language_nulls_id [OF nulls] cg
          del: ensure_traits_loop.simps)
  qed (simp_all add: repair_actor_doc_def cg)
qed

lemma cpns_stable:
  assumes ok: "int_ok d" and fp: "spec_normalize d = d"
  shows "convert_plus_number_strings d ch = Inr (d, False, ch)"
proof -
  have "plus_log d = []" using plus_log_empty_top [OF ok] fp by simp
  then show ?thesis using ok fp by (cases ch) (simp_all add: cpns_char)
qed

lemma repair_doc_stable:
  assumes ok: "int_ok d" and fp: "spec_normalize d = d"
    and fields: "\<forall>k\<in>set TRAIT_KEYS. \<forall>q\<in>field_paths k. clean_field (get d (traits_path @ q))"
    and vals: "\<forall>k\<in>set [''di'', ''dv'', ''ci'']. \<forall>q\<in>value_paths k. unsplit (get d (traits_path @ q))"
    and nulls: "no_language_nulls d"
  shows "repair_doc d = Inr (d, False, [])"
proof (cases "get d traits_path")
  case (JDict traits)
  have g: "get d (traits_path @ q) = get (JDict traits) q" for q
    by (simp only: get_append [of d traits_path] JDict)
  from fields have "\<forall>k\<in>set TRAIT_KEYS. fix_fields k traits = (traits, False, [])"
    by (simp only: g) (blast intro: fix_fields_id)
  then have l1: "for_keys fix_fields TRAIT_KEYS (traits, False, []) = (traits, False, [])"
    by (rule for_keys_id)
  from vals have "\<forall>k\<in>set [''di'', ''dv'', ''ci'']. split_value k traits = (traits, False, [])"
    by (simp only: g) (blast intro: split_value_id)
  then have l2: "for_keys split_value [''di'', ''dv'', ''ci''] (traits, False, []) = (traits, False, [])"
    by (rule for_keys_id)
  have w: "write_back d traits_path (JDict traits) = d"
    by (rule write_back_get [OF JDict]) simp
  show ?thesis
    by (simp add: repair_doc_def JDict purge_language_nulls_id [OF nulls] l1 l2 w
        cpns_stable [OF ok fp] del: for_keys.simps)
qed (simp_all add: repair_doc_def cpns_stable [OF ok fp])

lemma only_strings_iff:
  "only_strings keys fields doc \<longleftrightarrow>
   (\<forall>k\<in>set keys. \<forall>f\<in>set fields. strings_only (get doc (traits_path @ [k, f])))"
  by (simp add: only_strings_def list_all_iff)

lemma clean_entry_norm_str:
  assumes e: "clean_entry e"
    and s: "\<forall>f\<in>set [''value'', ''custom'', ''customTotal'']. strings_only (get (spec_norm_value e) [f])"
  shows "clean_entry (spec_norm_value e)"
proof -
  from e obtain t where t: "e = JDict t"
    and v: "clean_value (dict_get t ''value'')" and f1: "clean_field (dict_get t ''custom'')"
    and f2: "clean_field (dict_get t ''customTotal'')"
    by (cases e) (auto simp: clean_entry_def)
  from s have "strings_only (spec_norm_value (dict_get t ''value''))"
    and "strings_only (spec_norm_value (dict_get t ''custom''))"
    and "strings_only (spec_norm_value (dict_get t ''customTotal''))"
    by (simp_all add: t dict_get_spec_norm_items del: get.simps)
  then show ?thesis
    using v f1 f2
    by (simp add: t clean_entry_def dict_get_spec_norm_items clean_value_norm_str clean_field_norm_str)
qed

lemma repair_actor_doc_second_run:
  assumes r: "repair_actor_doc doc = Inr (doc1, c, l)"
    and os: "only_strings [''eres'', ''dr'', ''dv''] [''value'', ''custom'', ''customTotal''] doc1"
  shows "repair_actor_doc doc1 = Inr (doc1, False, [])"
proof (cases "is_dict (get doc traits_path)")
  case True
  then obtain traits where g: "get doc traits_path = JDict traits"
    by (cases "get doc traits_path") auto
  from repair_actor_doc_post [OF g r] obtain doc2 where
    ok: "int_ok doc2" and d: "doc1 = spec_normalize doc2"
    and e: "\<forall>k\<in>set [''eres'', ''dr'', ''dv'']. clean_entry (get doc2 (traits_path @ [k]))"
    and n: "no_language_nulls doc2"
    by blast
  have gn: "get doc1 (traits_path @ q) = spec_norm_value (get doc2 (traits_path @ q))" for q
    unfolding d by (rule get_spec_normalize) (simp add: traits_path_def)
  have "clean_entry (get doc1 (traits_path @ [k]))" if k: "k \<in> set [''eres'', ''dr'', ''dv'']" for k
  proof -
    from e k have ce: "clean_entry (get doc2 (traits_path @ [k]))" by blast
    have "strings_only (get (spec_norm_value (get doc2 (traits_path @ [k]))) [f])"
      if "f \<in> set [''value'', ''custom'', ''customTotal'']" for f
    proof -
      from os k that have "strings_only (get doc1 (traits_path @ [k, f]))"
        unfolding only_strings_iff by blast
      moreover have "get doc1 (traits_path @ [k, f]) = get (get doc1 (traits_path @ [k])) [f]"
        using get_append [of doc1 "traits_path @ [k]" "[f]"] by simp
      ultimately show ?thesis by (simp only: gn)
    qed
    then have "clean_entry (spec_norm_value (get doc2 (traits_path @ [k])))"
      using ce by (intro clean_entry_norm_str) blast+
    then show ?thesis by (simp only: gn)
  qed
  then have e1: "is_dict (get doc1 traits_path) \<longrightarrow>
      (\<forall>k\<in>set [''eres'', ''dr'', ''dv'']. clean_entry (get doc1 (traits_path @ [k])))"
    by blast
  show ?thesis
  proof (rule repair_actor_doc_stable [OF _ _ e1])
    show "int_ok doc1" unfolding d by (rule int_ok_spec_normalize [OF ok])
    show "spec_normalize doc1 = doc1" unfolding d by simp
    show "no_language_nulls doc1" unfolding d by (rule no_language_nulls_norm [OF n])
  qed
next
  case False
  then have "repair_actor_doc doc = convert_globally doc False []"
    by (cases "get doc traits_path") (simp_all add: repair_actor_doc_def)
  with r have "convert_globally doc False [] = Inr (doc1, c, l)" by simp
  then have a: "int_ok doc \<and> doc1 = spec_normalize doc" by (rule convert_globally_Inr)
  then have d: "doc1 = spec_normalize doc" and ok: "int_ok doc" by simp_all
  have "get doc1 traits_path = spec_norm_value (get doc traits_path)"
    unfolding d by (rule get_spec_normalize) (simp add: traits_path_def)
  with False have nd: "\<not> is_dict (get doc1 traits_path)" by simp
  then have e1: "is_dict (get doc1 traits_path) \<longrightarrow>
      (\<forall>k\<in>set [''eres'', ''dr'', ''dv'']. clean_entry (get doc1 (traits_path @ [k])))"
    by simp
  have "get doc1 (traits_path @ [''languages'', ''value'']) = JNull"
    using nd by (rule get_below_non_dict) simp
  then have n: "no_language_nulls doc1"
    by (simp add: no_language_nulls_def languages_path_def traits_path_def)
  show ?thesis
  proof (rule repair_actor_doc_stable [OF _ _ e1 n])
    show "int_ok doc1" unfolding d by (rule int_ok_spec_normalize [OF ok])
    show "spec_normalize doc1 = doc1" unfolding d by simp
  qed
qed

lemma repair_doc_second_run:
  assumes r: "repair_doc doc = Inr (doc1, c, l)"
    and os: "only_strings TRAIT_KEYS [''custom'', ''customTotal''] doc1"
  shows "repair_doc doc1 = Inr (doc1, False, [])"
proof -
  from repair_doc_post [OF r] obtain doc3 where
    ok: "int_ok doc3" and d: "doc1 = spec_normalize doc3"
    and b: "\<forall>k\<in>set TRAIT_KEYS. \<forall>q\<in>field_paths k. clean_field (get doc3 (traits_path @ q))"
    and u: "\<forall>k\<in>set [''di'', ''dv'', ''ci'']. \<forall>q\<in>value_paths k. unsplit (get doc3 (traits_path @ q))"
    and n: "no_language_nulls doc3"
    by blast
  have gn: "get doc1 (traits_path @ q) = spec_norm_value (get doc3 (traits_path @ q))" for q
    unfolding d by (rule get_spec_normalize) (simp add: traits_path_def)
  have b1: "\<forall>k\<in>set TRAIT_KEYS. \<forall>q\<in>field_paths k. clean_field (get doc1 (traits_path @ q))"
  proof (intro ballI)
    fix k q assume k: "k \<in> set TRAIT_KEYS" and q: "q \<in> field_paths k"
    from q obtain f where f: "f \<in> set [''custom'', ''customTotal'']" and qf: "q = [k, f]"
      by (auto simp: field_paths_def)
    from os k f have "strings_only (get doc1 (traits_path @ [k, f]))"
      unfolding only_strings_iff by blast
    then have "strings_only (spec_norm_value (get doc3 (traits_path @ q)))"
      by (simp only: gn qf)
    moreover from b k q have "clean_field (get doc3 (traits_path @ q))" by blast
    ultimately have "clean_field (spec_norm_value (get doc3 (traits_path @ q)))"
      by (intro clean_field_norm_str)
    then show "clean_field (get doc1 (traits_path @ q))" by (simp only: gn)
  qed
  have u1: "\<forall>k\<in>set [''di'', ''dv'', ''ci'']. \<forall>q\<in>value_paths k. unsplit (get doc1 (traits_path @ q))"
  proof (intro ballI)
    fix k q assume "k \<in> set [''di'', ''dv'', ''ci'']" and "q \<in> value_paths k"
    with u have "unsplit (get doc3 (traits_path @ q))" by blast
    then show "unsplit (get doc1 (traits_path @ q))" by (simp only: gn unsplit_norm)
  qed
  show ?thesis
  proof (rule repair_doc_stable [OF _ _ b1 u1])
    show "int_ok doc1" unfolding d by (rule int_ok_spec_normalize [OF ok])
    show "spec_normalize doc1 = doc1" unfolding d by simp
    show "no_language_nulls doc1" unfolding d by (rule no_language_nulls_norm [OF n])
  qed
qed

lemma cpns_second_run:
  assumes "convert_plus_number_strings obj ch = Inr (obj1, c, ch1)"
  shows "convert_plus_number_strings obj1 ch' = Inr (obj1, False, ch')"
proof -
  from cpns_Inr [OF assms] have ok: "int_ok obj" and d: "obj1 = spec_normalize obj" by simp_all
  show ?thesis
    unfolding d by (rule cpns_stable [OF int_ok_spec_normalize [OF ok]]) simp
qed
section \<open>A second run of the repair\<close>

text \<open>
  Claim C1, as the code has it. The output of a run of \<open>repair_actor_doc\<close> is a fixed point
  of a second run, which reports no change and logs nothing, whenever the sequences at
  \<open>value\<close>, \<open>custom\<close> and \<open>customTotal\<close> of \<open>eres\<close>, \<open>dr\<close> and \<open>dv\<close> in that output hold strings
  only, that is, when the numeric-string pass has turned no element of a trait sequence
  into an integer; the same holds of \<open>repair_doc\<close> with the sequences at \<open>custom\<close> and
  \<open>customTotal\<close> of the keys of \<open>TRAIT_KEYS\<close>. The numeric-string pass alone is idempotent
  on every value.
\<close>

theorem second_run_fixed_point:
  "(repair_actor_doc doc = Inr (doc1, c, l) \<and>
      only_strings [''eres'', ''dr'', ''dv''] [''value'', ''custom'', ''customTotal''] doc1 \<longrightarrow>
      repair_actor_doc doc1 = Inr (doc1, False, [])) \<and>
   (repair_doc doc = Inr (doc1, c, l) \<and> only_strings TRAIT_KEYS [''custom'', ''customTotal''] doc1 \<longrightarrow>
      repair_doc doc1 = Inr (doc1, False, [])) \<and>
   (convert_plus_number_strings obj ch = Inr (obj1, c', ch1) \<longrightarrow>
      convert_plus_number_strings obj1 ch' = Inr (obj1, False, ch'))"
proof (intro conjI impI)
  assume "repair_actor_doc doc = Inr (doc1, c, l) \<and>
      only_strings [''eres'', ''dr'', ''dv''] [''value'', ''custom'', ''customTotal''] doc1"
  then show "repair_actor_doc doc1 = Inr (doc1, False, [])"
    using repair_actor_doc_second_run by blast
next
  assume "repair_doc doc = Inr (doc1, c, l) \<and> only_strings TRAIT_KEYS [''custom'', ''customTotal''] doc1"
  then show "repair_doc doc1 = Inr (doc1, False, [])"
    using repair_doc_second_run by blast
next
  assume "convert_plus_number_strings obj ch = Inr (obj1, c', ch1)"
  then show "convert_plus_number_strings obj1 ch' = Inr (obj1, False, ch')"
    by (rule cpns_second_run)
qed

theorem second_run_fixed_point_witness:
  "repair_actor_doc (JDict [(''type'', JStr ''npc''), (''bonus'', JStr ''+2''), (''system'',
      JDict [(''traits'', JDict [(''dr'', JDict [(''value'', JStr ''fire; cold'')])])])])
     = Inr (JDict [(''type'', JStr ''npc''), (''bonus'', JInt 2), (''system'',
              JDict [(''traits'', JDict [(''dr'', JDict [(''value'', JList [JStr ''fire'', JStr ''cold''])]),
                                        (''eres'', JDict [(''value'', JList [])]),
                                        (''dv'', JDict [(''value'', JList [])])])])],
            True,
            [TraitCreated ''eres'', ValueNoneToList ''eres'', ValueStrToList ''dr'',
             TraitCreated ''dv'', ValueNoneToList ''dv'', GlobalConverted]) \<and>
   only_strings [''eres'', ''dr'', ''dv''] [''value'', ''custom'', ''customTotal'']
     (JDict [(''type'', JStr ''npc''), (''bonus'', JInt 2), (''system'',
              JDict [(''traits'', JDict [(''dr'', JDict [(''value'', JList [JStr ''fire'', JStr ''cold''])]),
                                        (''eres'', JDict [(''value'', JList [])]),
                                        (''dv'', JDict [(''value'', JList [])])])])]) \<and>
   repair_actor_doc
     (JDict [(''type'', JStr ''npc''), (''bonus'', JInt 2), (''system'',
              JDict [(''traits'', JDict [(''dr'', JDict [(''value'', JList [JStr ''fire'', JStr ''cold''])]),
                                        (''eres'', JDict [(''value'', JList [])]),
                                        (''dv'', JDict [(''value'', JList [])])])])])
     = Inr (JDict [(''type'', JStr ''npc''), (''bonus'', JInt 2), (''system'',
              JDict [(''traits'', JDict [(''dr'', JDict [(''value'', JList [JStr ''fire'', JStr ''cold''])]),
                                        (''eres'', JDict [(''value'', JList [])]),
                                        (''dv'', JDict [(''value'', JList [])])])])],
            False, []) \<and>
   repair_doc (JDict [(''type'', JStr ''npc''), (''bonus'', JStr ''+2''), (''system'',
      JDict [(''traits'', JDict [(''di'', JDict [(''value'', JStr ''fire;cold''),
                                                (''custom'', JStr ''acid'')])])])])
     = Inr (JDict [(''type'', JStr ''npc''), (''bonus'', JInt 2), (''system'',
              JDict [(''traits'', JDict [(''di'', JDict [(''value'', JList [JStr ''fire'', JStr ''cold'']),
                                                        (''custom'', JList [JStr ''acid''])])])])],
            True,
            [FieldStrToListN ''di'' ''custom'' 1, ValueSplit ''di'' 2,
             PlusNumber (AtKey ''bonus'') ''+2'' 2]) \<and>
   only_strings TRAIT_KEYS [''custom'', ''customTotal'']
     (JDict [(''type'', JStr ''npc''), (''bonus'', JInt 2), (''system'',
              JDict [(''traits'', JDict [(''di'', JDict [(''value'', JList [JStr ''fire'', JStr ''cold'']),
                                                        (''custom'', JList [JStr ''acid''])])])])]) \<and>
   repair_doc
     (JDict [(''type'', JStr ''npc''), (''bonus'', JInt 2), (''system'',
              JDict [(''traits'', JDict [(''di'', JDict [(''value'', JList [JStr ''fire'', JStr ''cold'']),
                                                        (''custom'', JList [JStr ''acid''])])])])])
     = Inr (JDict [(''type'', JStr ''npc''), (''bonus'', JInt 2), (''system'',
              JDict [(''traits'', JDict [(''di'', JDict [(''value'', JList [JStr ''fire'', JStr ''cold'']),
                                                        (''custom'', JList [JStr ''acid''])])])])],
            False, []) \<and>
   convert_plus_number_strings (JDict [(''bonus'', JStr ''+2'')]) (Some [])
     = Inr (JDict [(''bonus'', JInt 2)], True, Some [PlusNumber (AtKey ''bonus'') ''+2'' 2]) \<and>
   convert_plus_number_strings (JDict [(''bonus'', JInt 2)]) (Some [])
     = Inr (JDict [(''bonus'', JInt 2)], False, Some [])"
  using second_run_fixed_point [where doc = "JDict [(''type'', JStr ''npc''), (''bonus'', JStr ''+2''), (''system'',
      JDict [(''traits'', JDict [(''dr'', JDict [(''value'', JStr ''fire; cold'')])])])]"
      and ?doc1.0 = "JDict [(''type'', JStr ''npc''), (''bonus'', JInt 2), (''system'',
              JDict [(''traits'', JDict [(''dr'', JDict [(''value'', JList [JStr ''fire'', JStr ''cold''])]),
                                        (''eres'', JDict [(''value'', JList [])]),
                                        (''dv'', JDict [(''value'', JList [])])])])]"
      and c = True
      and l = "[TraitCreated ''eres'', ValueNoneToList ''eres'', ValueStrToList ''dr'',
             TraitCreated ''dv'', ValueNoneToList ''dv'', GlobalConverted]"
      and obj = "JDict [(''bonus'', JStr ''+2'')]" and ch = "Some []"
      and ?obj1.0 = "JDict [(''bonus'', JInt 2)]" and c' = True
      and ?ch1.0 = "Some [PlusNumber (AtKey ''bonus'') ''+2'' 2]" and ch' = "Some []"]
    second_run_fixed_point [where doc = "JDict [(''type'', JStr ''npc''), (''bonus'', JStr ''+2''), (''system'',
      JDict [(''traits'', JDict [(''di'', JDict [(''value'', JStr ''fire;cold''),
                                                (''custom'', JStr ''acid'')])])])]"
      and ?doc1.0 = "JDict [(''type'', JStr ''npc''), (''bonus'', JInt 2), (''system'',
              JDict [(''traits'', JDict [(''di'', JDict [(''value'', JList [JStr ''fire'', JStr ''cold'']),
                                                        (''custom'', JList [JStr ''acid''])])])])]"
      and c = True
      and l = "[FieldStrToListN ''di'' ''custom'' 1, ValueSplit ''di'' 2,
             PlusNumber (AtKey ''bonus'') ''+2'' 2]"
      and obj = "JDict [(''bonus'', JStr ''+2'')]" and ch = "Some []"
      and ?obj1.0 = "JDict [(''bonus'', JInt 2)]" and c' = True
      and ?ch1.0 = "Some [PlusNumber (AtKey ''bonus'') ''+2'' 2]" and ch' = "Some []"]
  by (simp add: json_evals for_keys.simps only_strings_def)

text \<open>
  As stated, the claim holds of every document: a trait \<open>value\<close> of \<open>"+2"\<close> becomes the
  sequence of the string \<open>"+2"\<close>, which the numeric-string pass of the same run turns into
  the integer \<open>2\<close>; the second run drops the integer from the sequence, as it is not a
  string, and reports a change. The same happens to a \<open>custom\<close> of \<open>"+5"\<close> in \<open>repair_doc\<close>.
\<close>

theorem second_run_changes_counterexample:
  "repair_actor_doc (JDict [(''type'', JStr ''npc''), (''system'', JDict [(''traits'',
      JDict [(''eres'', JDict [(''value'', JList [])]), (''dr'', JDict [(''value'', JStr ''+2'')]),
             (''dv'', JDict [(''value'', JList [])])])])])
     = Inr (JDict [(''type'', JStr ''npc''), (''system'', JDict [(''traits'',
              JDict [(''eres'', JDict [(''value'', JList [])]),
                     (''dr'', JDict [(''value'', JList [JInt 2])]),
                     (''dv'', JDict [(''value'', JList [])])])])],
            True, [ValueStrToList ''dr'', GlobalConverted]) \<and>
   repair_actor_doc (JDict [(''type'', JStr ''npc''), (''system'', JDict [(''traits'',
      JDict [(''eres'', JDict [(''value'', JList [])]), (''dr'', JDict [(''value'', JList [JInt 2])]),
             (''dv'', JDict [(''value'', JList [])])])])])
     = Inr (JDict [(''type'', JStr ''npc''), (''system'', JDict [(''traits'',
              JDict [(''eres'', JDict [(''value'', JList [])]),
                     (''dr'', JDict [(''value'', JList [])]),
                     (''dv'', JDict [(''value'', JList [])])])])],
            True, [ValueCleaned ''dr'']) \<and>
   repair_doc (JDict [(''type'', JStr ''npc''), (''system'', JDict [(''traits'',
      JDict [(''di'', JDict [(''custom'', JStr ''+5'')])])])])
     = Inr (JDict [(''type'', JStr ''npc''), (''system'', JDict [(''traits'',
              JDict [(''di'', JDict [(''custom'', JList [JInt 5])])])])],
            True, [FieldStrToListN ''di'' ''custom'' 1, PlusNumber (AtIndex 0) ''+5'' 5]) \<and>
   repair_doc (JDict [(''type'', JStr ''npc''), (''system'', JDict [(''traits'',
      JDict [(''di'', JDict [(''custom'', JList [JInt 5])])])])])
     = Inr (JDict [(''type'', JStr ''npc''), (''system'', JDict [(''traits'',
              JDict [(''di'', JDict [(''custom'', JList [])])])])],
            True, [FieldCleaned ''di'' ''custom''])"
  by (simp add: json_evals for_keys.simps)
section \<open>Trait entries of a repaired document\<close>

text \<open>
  Claim C2, as the code has it. After \<open>repair_actor_doc\<close> on a document whose
  \<open>system.traits\<close> is a mapping, each of \<open>eres\<close>, \<open>dr\<close> and \<open>dv\<close> is a mapping whose \<open>value\<close>
  is a sequence of strings that are not blank and of integers (the numeric-string pass
  runs after the trait rules and turns a numeric token of the sequence into an integer),
  and whose \<open>custom\<close> and \<open>customTotal\<close> are not strings and, when they are sequences, hold
  such elements only. After \<open>repair_doc\<close>, for each key of \<open>TRAIT_KEYS\<close>, \<open>custom\<close> and
  \<open>customTotal\<close> are not strings and, when they are sequences, hold such elements only;
  the \<open>value\<close> of \<open>di\<close>, \<open>dv\<close> and \<open>ci\<close> is not a string with a semicolon or a comma, and
  \<open>repair_doc\<close> has no other rule for \<open>value\<close>.
\<close>

theorem trait_entries_after_repair:
  "(is_dict (get doc traits_path) \<and> repair_actor_doc doc = Inr (doc', c, l) \<and>
      key \<in> set [''eres'', ''dr'', ''dv''] \<longrightarrow>
      is_dict (get doc' (traits_path @ [key])) \<and>
      value_ok (get doc' (traits_path @ [key, ''value''])) \<and>
      field_ok (get doc' (traits_path @ [key, ''custom''])) \<and>
      field_ok (get doc' (traits_path @ [key, ''customTotal'']))) \<and>
   (repair_doc doc = Inr (doc', c, l) \<and> key \<in> set TRAIT_KEYS \<longrightarrow>
      field_ok (get doc' (traits_path @ [key, ''custom''])) \<and>
      field_ok (get doc' (traits_path @ [key, ''customTotal''])) \<and>
      (key \<in> set [''di'', ''dv'', ''ci''] \<longrightarrow> unsplit (get doc' (traits_path @ [key, ''value'']))))"
proof (intro conjI impI)
  assume a: "is_dict (get doc traits_path) \<and> repair_actor_doc doc = Inr (doc', c, l) \<and>
      key \<in> set [''eres'', ''dr'', ''dv'']"
  then obtain traits where g: "get doc traits_path = JDict traits"
    by (cases "get doc traits_path") auto
  from a have r: "repair_actor_doc doc = Inr (doc', c, l)" by simp
  from repair_actor_doc_post [OF g r] a obtain doc2 where
    d: "doc' = spec_normalize doc2" and e: "clean_entry (get doc2 (traits_path @ [key]))"
    by blast
  from e obtain t where t: "get doc2 (traits_path @ [key]) = JDict t"
    and v: "clean_value (dict_get t ''value'')" and f1: "clean_field (dict_get t ''custom'')"
    and f2: "clean_field (dict_get t ''customTotal'')"
    by (cases "get doc2 (traits_path @ [key])") (auto simp: clean_entry_def)
  have n: "get doc' (traits_path @ q) = spec_norm_value (get doc2 (traits_path @ q))" for q
    unfolding d by (rule get_spec_normalize) (simp add: traits_path_def)
  have f: "get doc2 (traits_path @ [key, field]) = dict_get t field" for field
    using get_append [of doc2 "traits_path @ [key]" "[field]"] by (simp add: t del: get.simps)
  show "is_dict (get doc' (traits_path @ [key]))" by (simp add: n t)
  show "value_ok (get doc' (traits_path @ [key, ''value'']))"
    by (simp only: n f clean_value_norm [OF v])
  show "field_ok (get doc' (traits_path @ [key, ''custom'']))"
    by (simp only: n f clean_field_norm [OF f1])
  show "field_ok (get doc' (traits_path @ [key, ''customTotal'']))"
    by (simp only: n f clean_field_norm [OF f2])
next
  assume a: "repair_doc doc = Inr (doc', c, l) \<and> key \<in> set TRAIT_KEYS"
  then have r: "repair_doc doc = Inr (doc', c, l)" and k: "key \<in> set TRAIT_KEYS" by simp_all
  from repair_doc_post [OF r] obtain doc3 where
    d: "doc' = spec_normalize doc3"
    and b: "\<forall>k\<in>set TRAIT_KEYS. \<forall>q\<in>field_paths k. clean_field (get doc3 (traits_path @ q))"
    and u: "\<forall>k\<in>set [''di'', ''dv'', ''ci'']. \<forall>q\<in>value_paths k. unsplit (get doc3 (traits_path @ q))"
    by blast
  have n: "get doc' (traits_path @ q) = spec_norm_value (get doc3 (traits_path @ q))" for q
    unfolding d by (rule get_spec_normalize) (simp add: traits_path_def)
  from b k have "clean_field (get doc3 (traits_path @ [key, ''custom'']))"
    and "clean_field (get doc3 (traits_path @ [key, ''customTotal'']))"
    by (simp_all add: field_paths_def)
  then show "field_ok (get doc' (traits_path @ [key, ''custom'']))"
    and "field_ok (get doc' (traits_path @ [key, ''customTotal'']))"
    by (simp_all only: n clean_field_norm)
  show "unsplit (get doc' (traits_path @ [key, ''value'']))" if "key \<in> set [''di'', ''dv'', ''ci'']"
  proof -
    from u that have "unsplit (get doc3 (traits_path @ [key, ''value'']))"
      by (auto simp: value_paths_def)
    then show ?thesis by (simp only: n unsplit_norm)
  qed
qed

theorem trait_entries_after_repair_witness:
  "is_dict (get (JDict [(''type'', JStr ''npc''), (''system'', JDict [(''traits'',
      JDict [(''dr'', JDict [(''value'', JStr ''fire; +2''), (''custom'', JStr ''cold'')])])])])
     traits_path) \<and>
   repair_actor_doc (JDict [(''type'', JStr ''npc''), (''system'', JDict [(''traits'',
      JDict [(''dr'', JDict [(''value'', JStr ''fire; +2''), (''custom'', JStr ''cold'')])])])])
     = Inr (JDict [(''type'', JStr ''npc''), (''system'', JDict [(''traits'',
              JDict [(''dr'', JDict [(''value'', JList [JStr ''fire'', JInt 2]),
                                     (''custom'', JList [JStr ''cold''])]),
                     (''eres'', JDict [(''value'', JList [])]),
                     (''dv'', JDict [(''value'', JList [])])])])],
            True,
            [TraitCreated ''eres'', ValueNoneToList ''eres'', ValueStrToList ''dr'',
             FieldStrToList ''dr'' ''custom'', TraitCreated ''dv'', ValueNoneToList ''dv'',
             GlobalConverted]) \<and>
   ''dr'' \<in> set [''eres'', ''dr'', ''dv''] \<and>
   value_ok (JList [JStr ''fire'', JInt 2]) \<and> field_ok (JList [JStr ''cold'']) \<and> field_ok JNull \<and>
   repair_doc (JDict [(''type'', JStr ''npc''), (''system'', JDict [(''traits'',
      JDict [(''di'', JDict [(''value'', JStr ''fire''), (''custom'', JStr ''cold, +5'')])])])])
     = Inr (JDict [(''type'', JStr ''npc''), (''system'', JDict [(''traits'',
              JDict [(''di'', JDict [(''value'', JStr ''fire''),
                                     (''custom'', JList [JStr ''cold'', JInt 5])])])])],
            True,
            [FieldStrToListN ''di'' ''custom'' 2, PlusNumber (AtIndex 1) ''+5'' 5]) \<and>
   ''di'' \<in> set TRAIT_KEYS \<and>
   field_ok (JList [JStr ''cold'', JInt 5]) \<and> unsplit (JStr ''fire'')"
  using trait_entries_after_repair [where doc = "JDict [(''type'', JStr ''npc''), (''system'', JDict [(''traits'',
      JDict [(''dr'', JDict [(''value'', JStr ''fire; +2''), (''custom'', JStr ''cold'')])])])]"
      and doc' = "JDict [(''type'', JStr ''npc''), (''system'', JDict [(''traits'',
              JDict [(''dr'', JDict [(''value'', JList [JStr ''fire'', JInt 2]),
                                     (''custom'', JList [JStr ''cold''])]),
                     (''eres'', JDict [(''value'', JList [])]),
                     (''dv'', JDict [(''value'', JList [])])])])]"
      and c = True
      and l = "[TraitCreated ''eres'', ValueNoneToList ''eres'', ValueStrToList ''dr'',
             FieldStrToList ''dr'' ''custom'', TraitCreated ''dv'', ValueNoneToList ''dv'',
             GlobalConverted]"
      and key = "''dr''"]
    trait_entries_after_repair [where doc = "JDict [(''type'', JStr ''npc''), (''system'', JDict [(''traits'',
      JDict [(''di'', JDict [(''value'', JStr ''fire''), (''custom'', JStr ''cold, +5'')])])])]"
      and doc' = "JDict [(''type'', JStr ''npc''), (''system'', JDict [(''traits'',
              JDict [(''di'', JDict [(''value'', JStr ''fire''),
                                     (''custom'', JList [JStr ''cold'', JInt 5])])])])]"
      and c = True
      and l = "[FieldStrToListN ''di'' ''custom'' 2, PlusNumber (AtIndex 1) ''+5'' 5]"
      and key = "''di''"]
  by (simp add: json_evals for_keys.simps)


text \<open>
  As stated, the claim has sequences of strings only, and \<open>value\<close> a sequence after either
  repair: \<open>repair_actor_doc\<close> leaves the integer \<open>2\<close> in \<open>dr.value\<close> and the number at
  \<open>dr.custom\<close>, and \<open>repair_doc\<close> leaves the null at \<open>di.value\<close> and the string at
  \<open>ci.value\<close>.
\<close>

theorem trait_sequence_of_strings_counterexample:
  "repair_actor_doc (JDict [(''type'', JStr ''npc''), (''system'', JDict [(''traits'',
      JDict [(''dr'', JDict [(''value'', JStr ''fire; +2''), (''custom'', JInt 5)])])])])
     = Inr (JDict [(''type'', JStr ''npc''), (''system'', JDict [(''traits'',
              JDict [(''dr'', JDict [(''value'', JList [JStr ''fire'', JInt 2]),
                                     (''custom'', JInt 5)]),
                     (''eres'', JDict [(''value'', JList [])]),
                     (''dv'', JDict [(''value'', JList [])])])])],
            True,
            [TraitCreated ''eres'', ValueNoneToList ''eres'', ValueStrToList ''dr'',
             TraitCreated ''dv'', ValueNoneToList ''dv'', GlobalConverted]) \<and>
   repair_doc (JDict [(''type'', JStr ''npc''), (''system'', JDict [(''traits'',
      JDict [(''di'', JDict [(''value'', JNull), (''custom'', JStr ''cold'')]),
             (''ci'', JDict [(''value'', JStr ''fear'')])])])])
     = Inr (JDict [(''type'', JStr ''npc''), (''system'', JDict [(''traits'',
              JDict [(''di'', JDict [(''value'', JNull), (''custom'', JList [JStr ''cold''])]),
                     (''ci'', JDict [(''value'', JStr ''fear'')])])])],
            True, [FieldStrToListN ''di'' ''custom'' 1])"
  by (simp add: json_evals for_keys.simps)

section \<open>Which documents the numeric-string pass reaches\<close>

text \<open>
  Claim C3, as the code has it. The numeric-string pass is applied to every document that
  passes the type filter of its script, whether or not the document has a mapping at
  \<open>system.traits\<close>: a result has no string left that passes the test of the pass, and
  without such a mapping a result is the normalized document. A document that does not
  pass the filter (a type other than \<open>character\<close> and \<open>npc\<close> in
  \<open>repair_pf1_character_resistances_packages.py\<close>, a type other than \<open>npc\<close> under
  \<open>only_npc\<close> in \<open>repair_pf1_packages.py\<close>) is written back with no rule applied, the
  numeric-string pass included.
\<close>

theorem numeric_pass_scope:
  "(should_patch_doc doc \<and> patch_document doc = Inr (doc', c, log) \<longrightarrow> \<not> has_plus_strings doc') \<and>
   (should_patch_doc doc \<and> \<not> is_dict (get (JDict doc) traits_path) \<and>
      patch_document doc = Inr (doc', c, log) \<longrightarrow> doc' = spec_normalize (JDict doc)) \<and>
   (\<not> should_patch_doc doc \<longrightarrow> patch_document doc = Inr (JDict doc, False, [])) \<and>
   (\<not> (only_npc \<and> dict_get doc ''type'' \<noteq> JStr ''npc'') \<and>
      patch_document_npc only_npc doc = Inr (doc', c, log) \<longrightarrow> \<not> has_plus_strings doc') \<and>
   (only_npc \<and> dict_get doc ''type'' \<noteq> JStr ''npc'' \<longrightarrow>
      patch_document_npc only_npc doc = Inr (JDict doc, False, []))"
proof (intro conjI impI)
  assume "should_patch_doc doc \<and> patch_document doc = Inr (doc', c, log)"
  then have "repair_actor_doc (JDict doc) = Inr (doc', c, log)"
    by (auto simp: patch_document_def)
  then show "\<not> has_plus_strings doc'"
    using repair_actor_doc_result spec_normalize_no_plus by blast
next
  assume a: "should_patch_doc doc \<and> \<not> is_dict (get (JDict doc) traits_path) \<and>
      patch_document doc = Inr (doc', c, log)"
  then have "repair_actor_doc (JDict doc) = convert_globally (JDict doc) False []"
    by (cases "get (JDict doc) traits_path") (simp_all add: repair_actor_doc_def)
  moreover from a have "repair_actor_doc (JDict doc) = Inr (doc', c, log)"
    by (auto simp: patch_document_def)
  ultimately have "convert_globally (JDict doc) False [] = Inr (doc', c, log)" by simp
  then show "doc' = spec_normalize (JDict doc)" by (simp add: convert_globally_Inr)
next
  assume "\<not> should_patch_doc doc"
  then show "patch_document doc = Inr (JDict doc, False, [])"
    by (simp add: patch_document_def)
next
  assume "\<not> (only_npc \<and> dict_get doc ''type'' \<noteq> JStr ''npc'') \<and>
      patch_document_npc only_npc doc = Inr (doc', c, log)"
  then have "repair_doc (JDict doc) = Inr (doc', c, log)"
    by (auto simp: patch_document_npc_def)
  then show "\<not> has_plus_strings doc'"
    using repair_doc_result spec_normalize_no_plus by blast
next
  assume "only_npc \<and> dict_get doc ''type'' \<noteq> JStr ''npc''"
  then show "patch_document_npc only_npc doc = Inr (JDict doc, False, [])"
    by (simp add: patch_document_npc_def)
qed

theorem numeric_pass_scope_witness:
  "should_patch_doc [(''type'', JStr ''npc''), (''bonus'', JStr ''+2'')] \<and>
   \<not> is_dict (get (JDict [(''type'', JStr ''npc''), (''bonus'', JStr ''+2'')]) traits_path) \<and>
   patch_document [(''type'', JStr ''npc''), (''bonus'', JStr ''+2'')]
     = Inr (JDict [(''type'', JStr ''npc''), (''bonus'', JInt 2)], True, [GlobalConverted]) \<and>
   \<not> has_plus_strings (JDict [(''type'', JStr ''npc''), (''bonus'', JInt 2)]) \<and>
   JDict [(''type'', JStr ''npc''), (''bonus'', JInt 2)]
     = spec_normalize (JDict [(''type'', JStr ''npc''), (''bonus'', JStr ''+2'')]) \<and>
   \<not> should_patch_doc [(''type'', JStr ''item''), (''bonus'', JStr ''+2'')] \<and>
   patch_document [(''type'', JStr ''item''), (''bonus'', JStr ''+2'')]
     = Inr (JDict [(''type'', JStr ''item''), (''bonus'', JStr ''+2'')], False, []) \<and>
   patch_document_npc False [(''type'', JStr ''item''), (''bonus'', JStr ''+2'')]
     = Inr (JDict [(''type'', JStr ''item''), (''bonus'', JInt 2)], True,
            [PlusNumber (AtKey ''bonus'') ''+2'' 2]) \<and>
   patch_document_npc True [(''type'', JStr ''item''), (''bonus'', JStr ''+2'')]
     = Inr (JDict [(''type'', JStr ''item''), (''bonus'', JStr ''+2'')], False, [])"
  using numeric_pass_scope [where doc = "[(''type'', JStr ''npc''), (''bonus'', JStr ''+2'')]"
      and doc' = "JDict [(''type'', JStr ''npc''), (''bonus'', JInt 2)]" and c = True
      and log = "[GlobalConverted]" and only_npc = True]
    numeric_pass_scope [where doc = "[(''type'', JStr ''item''), (''bonus'', JStr ''+2'')]"
      and doc' = "JDict [(''type'', JStr ''item''), (''bonus'', JInt 2)]" and c = True
      and log = "[PlusNumber (AtKey ''bonus'') ''+2'' 2]" and only_npc = False]
  by (simp add: patch_document_def patch_document_npc_def should_patch_doc_def has_plus_strings_def
      int_ok_def json_evals spec_normalize_def)


text \<open>
  As stated, the claim has the pass applied regardless of the type: a document of type
  \<open>item\<close> keeps its string \<open>"+2"\<close>.
\<close>

theorem numeric_pass_skipped_counterexample:
  "patch_document [(''type'', JStr ''item''), (''bonus'', JStr ''+2'')]
     = Inr (JDict [(''type'', JStr ''item''), (''bonus'', JStr ''+2'')], False, []) \<and>
   has_plus_strings (JDict [(''type'', JStr ''item''), (''bonus'', JStr ''+2'')]) \<and>
   patch_document_npc True [(''type'', JStr ''item''), (''bonus'', JStr ''+2'')]
     = Inr (JDict [(''type'', JStr ''item''), (''bonus'', JStr ''+2'')], False, [])"
  by (simp add: patch_document_def patch_document_npc_def should_patch_doc_def has_plus_strings_def
      dict_get_def string_defs)

section \<open>Exceptions of the repair functions\<close>

text \<open>
  Claim C4 says that no repair function raises. The numeric-string pass guards \<open>int\<close> by
  \<open>isdigit\<close>, which also accepts the superscript digits: on the document
  \<open>{"type": "npc", "bonus": "+\<twosuperior>"}\<close> both shape normalizers raise \<open>ValueError\<close>.
\<close>

theorem superscript_digit_raises:
  "repair_actor_doc (JDict [(''type'', JStr ''npc''), (''bonus'', JStr [CHR ''+'', CHR 0xB2])])
     = Inl ValueError \<and>
   repair_doc (JDict [(''type'', JStr ''npc''), (''bonus'', JStr [CHR ''+'', CHR 0xB2])])
     = Inl ValueError"
  by (simp add: json_evals)

section \<open>Tags after deduplication\<close>

text \<open>
  Claim C5 says that after the Identifier Deduplicator no two items carry the same tag.
  Tags are read trimmed, but a replacement tag ends with the item's identifier as it is:
  with three items tagged \<open>bite_x\<close>, \<open>bite\<close>, \<open>bite\<close>, the last one with the identifier
  \<open>"x "\<close>, the third item gets the tag \<open>"bite_x "\<close>, which reads as \<open>bite_x\<close>, the tag of
  the first item.
\<close>

theorem duplicate_tags_after_repair:
  "fix_actor_identifiers_and_resources
     [(''type'', JStr ''npc''),
      (''items'', JList
         [JDict [(''_id'', JStr ''a''), (''system'', JDict [(''tag'', JStr ''bite_x'')])],
          JDict [(''_id'', JStr ''b''), (''system'', JDict [(''tag'', JStr ''bite'')])],
          JDict [(''_id'', JStr ''x ''), (''system'', JDict [(''tag'', JStr ''bite'')])]])]
   = Inr ([(''type'', JStr ''npc''),
           (''items'', JList
              [JDict [(''_id'', JStr ''a''), (''system'', JDict [(''tag'', JStr ''bite_x'')])],
               JDict [(''_id'', JStr ''b''), (''system'', JDict [(''tag'', JStr ''bite'')])],
               JDict [(''_id'', JStr ''x ''),
                      (''system'', JDict [(''tag'', JStr ''bite_x ''), (''useCustomTag'', JBool True)])]])],
          True, [ItemRenamed JNull ''x '' ''bite'' ''bite_x ''])
   \<and> get_item_tag [(''_id'', JStr ''a''), (''system'', JDict [(''tag'', JStr ''bite_x'')])]
       = Some ''bite_x''
   \<and> get_item_tag [(''_id'', JStr ''x ''),
                    (''system'', JDict [(''tag'', JStr ''bite_x ''), (''useCustomTag'', JBool True)])]
       = Some ''bite_x''"
  by (simp add: actor_evals)

section \<open>Running the Identifier Deduplicator twice\<close>

text \<open>
  Claim C6 says that a second run of the Identifier Deduplicator changes nothing. On the
  document the first run produces from the three items of the previous section, the
  second run finds the third tag taken and renames the item once more.
\<close>

theorem second_run_renames_again:
  "fix_actor_identifiers_and_resources
     [(''type'', JStr ''npc''),
      (''items'', JList
         [JDict [(''_id'', JStr ''a''), (''system'', JDict [(''tag'', JStr ''bite_x'')])],
          JDict [(''_id'', JStr ''b''), (''system'', JDict [(''tag'', JStr ''bite'')])],
          JDict [(''_id'', JStr ''x ''),
                 (''system'', JDict [(''tag'', JStr ''bite_x ''), (''useCustomTag'', JBool True)])]])]
   = Inr ([(''type'', JStr ''npc''),
           (''items'', JList
              [JDict [(''_id'', JStr ''a''), (''system'', JDict [(''tag'', JStr ''bite_x'')])],
               JDict [(''_id'', JStr ''b''), (''system'', JDict [(''tag'', JStr ''bite'')])],
               JDict [(''_id'', JStr ''x ''),
                      (''system'', JDict [(''tag'', JStr ''bite_x_x ''), (''useCustomTag'', JBool True)])]])],
          True, [ItemRenamed JNull ''x '' ''bite_x'' ''bite_x_x ''])"
  by (simp add: actor_evals)

section \<open>Resource keys and item tags\<close>

text \<open>
  Claim C7 says that after the Identifier Deduplicator no key of the resource map equals
  the final tag of an item. Pass 3 compares the keys with the tags as pass 1 stored them,
  and a replacement tag ends with the item's identifier as it is, while tags are read
  trimmed: with two items tagged \<open>bite\<close>, the second with the identifier \<open>"x "\<close>, and the
  resource keys \<open>bite_x\<close> and \<open>claw\<close>, the second item gets the tag \<open>"bite_x "\<close>, which reads
  as \<open>bite_x\<close>, and the resource key \<open>bite_x\<close> is kept.
\<close>

theorem resource_key_equals_item_tag:
  "fix_actor_identifiers_and_resources
     [(''type'', JStr ''npc''),
      (''items'', JList
         [JDict [(''_id'', JStr ''a''), (''system'', JDict [(''tag'', JStr ''bite'')])],
          JDict [(''_id'', JStr ''x ''), (''system'', JDict [(''tag'', JStr ''bite'')])]]),
      (''system'', JDict [(''resources'', JDict [(''bite_x'', JInt 1), (''claw'', JInt 2)])])]
   = Inr ([(''type'', JStr ''npc''),
           (''items'', JList
              [JDict [(''_id'', JStr ''a''), (''system'', JDict [(''tag'', JStr ''bite'')])],
               JDict [(''_id'', JStr ''x ''),
                      (''system'', JDict [(''tag'', JStr ''bite_x ''), (''useCustomTag'', JBool True)])]]),
           (''system'', JDict [(''resources'', JDict [(''bite_x'', JInt 1), (''claw'', JInt 2)])])],
          True, [ItemRenamed JNull ''x '' ''bite'' ''bite_x ''])
   \<and> get_item_tag [(''_id'', JStr ''x ''),
                    (''system'', JDict [(''tag'', JStr ''bite_x ''), (''useCustomTag'', JBool True)])]
       = Some ''bite_x''
   \<and> get_resources_dict
         [(''type'', JStr ''npc''),
          (''items'', JList
             [JDict [(''_id'', JStr ''a''), (''system'', JDict [(''tag'', JStr ''bite'')])],
              JDict [(''_id'', JStr ''x ''),
                     (''system'', JDict [(''tag'', JStr ''bite_x ''), (''useCustomTag'', JBool True)])]]),
          (''system'', JDict [(''resources'', JDict [(''bite_x'', JInt 1), (''claw'', JInt 2)])])]
       = Some [(''bite_x'', JInt 1), (''claw'', JInt 2)]"
  by (simp add: actor_evals)

section \<open>Numeric-string normalization\<close>

text \<open>
  Claim C8. When the numeric-string pass returns, its result is the document the
  specification describes: each string value of a mapping or element of a sequence that,
  trimmed, is a \<open>+\<close> followed by one or more digits has become that base-10 integer and
  nothing else has changed; and no string that passes the test of the pass is left at any
  depth. Both shape normalizers end with the pass, so no such string is left in a repaired
  document.
\<close>

theorem numeric_string_normalization:
  "(convert_plus_number_strings obj changes = Inr (obj', changed, changes') \<longrightarrow>
      obj' = spec_normalize obj \<and> \<not> has_plus_strings obj') \<and>
   (repair_actor_doc doc = Inr (doc', c, log) \<longrightarrow> \<not> has_plus_strings doc') \<and>
   (repair_doc doc = Inr (doc', c, log) \<longrightarrow> \<not> has_plus_strings doc')"
proof (intro conjI impI)
  assume a: "convert_plus_number_strings obj changes = Inr (obj', changed, changes')"
  then show "obj' = spec_normalize obj" by (simp add: cpns_Inr)
  from a show "\<not> has_plus_strings obj'"
    using cpns_Inr spec_normalize_no_plus by blast
next
  assume "repair_actor_doc doc = Inr (doc', c, log)"
  then show "\<not> has_plus_strings doc'"
    using repair_actor_doc_result spec_normalize_no_plus by blast
next
  assume "repair_doc doc = Inr (doc', c, log)"
  then show "\<not> has_plus_strings doc'"
    using repair_doc_result spec_normalize_no_plus by blast
qed

theorem numeric_string_normalization_witness:
  "convert_plus_number_strings (JDict [(''abilityMod'', JStr ''+2'')]) None =
     Inr (JDict [(''abilityMod'', JInt 2)], True, None) \<and>
   repair_actor_doc (JDict [(''abilityMod'', JStr ''+2'')]) =
     Inr (JDict [(''abilityMod'', JInt 2)], True, [GlobalConverted]) \<and>
   repair_doc (JDict [(''abilityMod'', JStr ''+2'')]) =
     Inr (JDict [(''abilityMod'', JInt 2)], True, [PlusNumber (AtKey ''abilityMod'') ''+2'' 2]) \<and>
   JDict [(''abilityMod'', JInt 2)] = spec_normalize (JDict [(''abilityMod'', JStr ''+2'')]) \<and>
   \<not> has_plus_strings (JDict [(''abilityMod'', JInt 2)])"
  using numeric_string_normalization [where obj = "JDict [(''abilityMod'', JStr ''+2'')]"
      and changes = None and obj' = "JDict [(''abilityMod'', JInt 2)]" and changed = True
      and changes' = None and doc = "JDict [(''abilityMod'', JStr ''+2'')]"
      and doc' = "JDict [(''abilityMod'', JInt 2)]" and c = True and log = "[GlobalConverted]"]
  by (simp add: convert_plus_number_strings.simps cpns_value.simps string_defs int_ok_def
      repair_actor_doc_def repair_doc_def convert_globally_def traits_path_def
      spec_normalize_def has_plus_strings_def log_change_def)

section \<open>What is written for each line\<close>

text \<open>
  Claim C9, as the code has it. When a file is processed without an exception, one string
  is written for each line read, in the order of the lines. A blank line, a line that
  does not parse and a line that parses to something other than a mapping are written
  exactly as they were read. A line that parses to a mapping is written as the
  serialization of its document, repaired or not, followed by one newline: an unmutated
  document is serialized again, so its line is the input line only if that already was
  the serializer's text.
\<close>

theorem lines_written:
  "(process_db_file loads dumps lines = Inr (outs, patched, report) \<longrightarrow>
      length outs = length lines \<and>
      (\<forall>i < length lines.
         (written_as_read loads (lines ! i) \<longrightarrow> outs ! i = lines ! i) \<and>
         (\<forall>doc. \<not> written_as_read loads (lines ! i) \<and>
                 loads (rstrip_newline (lines ! i)) = Some (JDict doc) \<longrightarrow>
            (\<exists>doc' c l. patch_document doc = Inr (doc', c, l) \<and>
                        outs ! i = dumps doc' @ [newline])))) \<and>
   (process_db_file_npc loads dumps only_npc lines = Inr (outs, counts, report) \<longrightarrow>
      length outs = length lines \<and>
      (\<forall>i < length lines.
         (written_as_read loads (lines ! i) \<longrightarrow> outs ! i = lines ! i) \<and>
         (\<forall>doc. \<not> written_as_read loads (lines ! i) \<and>
                 loads (rstrip_newline (lines ! i)) = Some (JDict doc) \<longrightarrow>
            (\<exists>doc' c l. patch_document_npc only_npc doc = Inr (doc', c, l) \<and>
                        outs ! i = dumps doc' @ [newline]))))"
proof (intro conjI impI)
  assume a: "process_db_file loads dumps lines = Inr (outs, patched, report)"
  then have p: "process_lines (process_line loads dumps) 1 lines = Inr (outs, patched, report)"
    by (simp add: process_db_file_def)
  from process_lines_nth [OF p] show "length outs = length lines" by simp
  from process_lines_nth [OF p] show "\<forall>i < length lines.
         (written_as_read loads (lines ! i) \<longrightarrow> outs ! i = lines ! i) \<and>
         (\<forall>doc. \<not> written_as_read loads (lines ! i) \<and>
                 loads (rstrip_newline (lines ! i)) = Some (JDict doc) \<longrightarrow>
            (\<exists>doc' c l. patch_document doc = Inr (doc', c, l) \<and>
                        outs ! i = dumps doc' @ [newline]))"
    using process_line_cases by blast
next
  assume a: "process_db_file_npc loads dumps only_npc lines = Inr (outs, counts, report)"
  then obtain patched where
    p: "process_lines (process_line_npc loads dumps only_npc) 1 lines = Inr (outs, patched, report)"
    by (auto simp: process_db_file_npc_def split: sum.splits if_splits)
  from process_lines_nth [OF p] show "length outs = length lines" by simp
  from process_lines_nth [OF p] show "\<forall>i < length lines.
         (written_as_read loads (lines ! i) \<longrightarrow> outs ! i = lines ! i) \<and>
         (\<forall>doc. \<not> written_as_read loads (lines ! i) \<and>
                 loads (rstrip_newline (lines ! i)) = Some (JDict doc) \<longrightarrow>
            (\<exists>doc' c l. patch_document_npc only_npc doc = Inr (doc', c, l) \<and>
                        outs ! i = dumps doc' @ [newline]))"
    using process_line_npc_cases by blast
qed

theorem lines_written_witness:
  "process_db_file (\<lambda>s. if s = ''{ }'' then Some (JDict []) else None) (\<lambda>d. ''{}'')
     [''{ }'' @ [newline], ''oops'' @ [newline], [newline]]
   = Inr ([''{}'' @ [newline], ''oops'' @ [newline], [newline]], 0, []) \<and>
   process_db_file_npc (\<lambda>s. if s = ''{ }'' then Some (JDict []) else None) (\<lambda>d. ''{}'') True
     [''{ }'' @ [newline], ''oops'' @ [newline], [newline]]
   = Inr ([''{}'' @ [newline], ''oops'' @ [newline], [newline]], (0, 3), []) \<and>
   written_as_read (\<lambda>s. if s = ''{ }'' then Some (JDict []) else None) (''oops'' @ [newline]) \<and>
   \<not> written_as_read (\<lambda>s. if s = ''{ }'' then Some (JDict []) else None) (''{ }'' @ [newline]) \<and>
   patch_document [] = Inr (JDict [], False, []) \<and>
   patch_document_npc True [] = Inr (JDict [], False, [])"
  using lines_written [where loads = "\<lambda>s. if s = ''{ }'' then Some (JDict []) else None"
      and dumps = "\<lambda>d. ''{}''" and only_npc = True
      and lines = "[''{ }'' @ [newline], ''oops'' @ [newline], [newline]]"
      and outs = "[''{}'' @ [newline], ''oops'' @ [newline], [newline]]"
      and patched = 0 and report = "[]" and counts = "(0, 3)"]
  by (simp add: process_db_file_def process_db_file_npc_def process_line_def
      process_line_npc_def patch_document_def patch_document_npc_def should_patch_doc_def
      written_as_read_def rstrip_newline_def newline_def report_of_def dict_get_def
      string_defs)

text \<open>
  As stated, the claim has every line of an unmutated document written as it was read: the
  line \<open>{ }\<close> parses to the empty mapping, which nothing mutates and which is serialized
  as \<open>{}\<close>.
\<close>

theorem unmutated_line_rewritten_counterexample:
  "process_db_file (\<lambda>s. if s = ''{ }'' then Some (JDict []) else None) (\<lambda>d. ''{}'')
     [''{ }'' @ [newline]]
   = Inr ([''{}'' @ [newline]], 0, []) \<and>
   ''{}'' @ [newline] \<noteq> ''{ }'' @ [newline]"
  by (simp add: process_db_file_def process_line_def patch_document_def should_patch_doc_def
      rstrip_newline_def newline_def report_of_def dict_get_def string_defs)

section \<open>The flag and the log\<close>



end
